theory Spec2Isabelle
  imports Main "HOL-Library.Word" "HOL-Library.Multiset"
begin

section \<open>Palette keys: a 256-bit set of palette indices\<close>

text \<open>
  Embedding of \<^verbatim>\<open>ss1/content/movie/internal/compression/PaletteLookupGenerator.go\<close>.
  A \<^verbatim>\<open>tilePaletteKey\<close> is the struct \<^verbatim>\<open>{usedColors [4]uint64; size int}\<close>. The array of four
  words is a 4-tuple read and written through \<open>word_at\<close> and \<open>word_upd\<close>; the only indices
  the code uses are the literals 0..3 and \<^verbatim>\<open>index/64\<close> for a byte \<^verbatim>\<open>index\<close>, which is at most 3.
  Go's \<^verbatim>\<open>int\<close> is modelled as \<open>int\<close>: \<^verbatim>\<open>size\<close> only counts palette indices and buffer offsets.
\<close>

unbundle bit_operations_syntax

type_synonym byte = "8 word"
type_synonym uint64 = "64 word"
type_synonym words4 = "uint64 \<times> uint64 \<times> uint64 \<times> uint64"

fun word_at :: "words4 \<Rightarrow> nat \<Rightarrow> uint64" where
  "word_at (a, b, c, d) i = (if i = 0 then a else if i = 1 then b else if i = 2 then c else d)"

fun word_upd :: "words4 \<Rightarrow> nat \<Rightarrow> uint64 \<Rightarrow> words4" where
  "word_upd (a, b, c, d) i w =
     (if i = 0 then (w, b, c, d) else if i = 1 then (a, w, c, d)
      else if i = 2 then (a, b, w, d) else (a, b, c, w))"

record tilePaletteKey =
  usedColors :: words4
  size_k :: int

text \<open>The zero value of the struct, as \<^verbatim>\<open>var key tilePaletteKey\<close> creates it.\<close>

definition emptyKey :: tilePaletteKey where
  "emptyKey = \<lparr>usedColors = (0, 0, 0, 0), size_k = 0\<rparr>"

definition hasColor :: "tilePaletteKey \<Rightarrow> byte \<Rightarrow> bool" where
  "hasColor key index =
     (word_at (usedColors key) (unat (index div 64)) AND push_bit (unat (index mod 64)) 1 \<noteq> 0)"

definition useColor :: "tilePaletteKey \<Rightarrow> byte \<Rightarrow> tilePaletteKey" where
  "useColor key index =
     (if \<not> hasColor key index
      then key\<lparr>usedColors := word_upd (usedColors key) (unat (index div 64))
                 (word_at (usedColors key) (unat (index div 64)) OR push_bit (unat (index mod 64)) 1),
               size_k := size_k key + 1\<rparr>
      else key)"

definition contains :: "tilePaletteKey \<Rightarrow> tilePaletteKey \<Rightarrow> bool" where
  "contains key other =
     ((NOT (word_at (usedColors key) 0) AND word_at (usedColors other) 0 = 0) \<and>
      (NOT (word_at (usedColors key) 1) AND word_at (usedColors other) 1 = 0) \<and>
      (NOT (word_at (usedColors key) 2) AND word_at (usedColors other) 2 = 0) \<and>
      (NOT (word_at (usedColors key) 3) AND word_at (usedColors other) 3 = 0))"

text \<open>The set of palette indices a key holds, read through \<open>hasColor\<close>.\<close>

definition colors :: "tilePaletteKey \<Rightarrow> byte set" where
  "colors key = {c. hasColor key c}"


text \<open>
  \<^verbatim>\<open>for i := 0; i < 256; i++\<close> is a fold over \<open>[0..<256]\<close>, with \<^verbatim>\<open>byte(i)\<close> as \<open>of_nat i\<close>.
  The methods \<^verbatim>\<open>buffer\<close> of the key, of the nested entry and the field \<^verbatim>\<open>buffer\<close> of the
  lookup are told apart as \<open>key_buffer\<close>, \<open>entry_buffer\<close> and \<open>buffer\<close>.
\<close>

definition without :: "tilePaletteKey \<Rightarrow> tilePaletteKey \<Rightarrow> tilePaletteKey" where
  "without key other =
     fold (\<lambda>i result. if hasColor key (of_nat i) \<and> \<not> hasColor other (of_nat i)
                        then useColor result (of_nat i) else result)
          [0..<256] emptyKey"

definition key_buffer :: "tilePaletteKey \<Rightarrow> byte list" where
  "key_buffer key =
     fold (\<lambda>i result. if hasColor key (of_nat i) then result @ [of_nat i] else result)
          [0..<256] []"

definition joinedBuffer :: "tilePaletteKey \<Rightarrow> byte list \<Rightarrow> byte list" where
  "joinedBuffer key source =
     (let (result, addedColors) =
            fold (\<lambda>color (result, addedColors). (result @ [color], useColor addedColors color))
                 source ([], emptyKey)
      in fold (\<lambda>color result.
                 if hasColor key (of_nat color) \<and> \<not> hasColor addedColors (of_nat color)
                 then result @ [of_nat color] else result)
              [0..<256] result)"

text \<open>The number of set bits of a word, and of the four words of a key.\<close>

definition popcount :: "uint64 \<Rightarrow> nat" where
  "popcount w = length (filter (bit w) [0..<64])"

definition popcount4 :: "tilePaletteKey \<Rightarrow> nat" where
  "popcount4 key =
     popcount (word_at (usedColors key) 0) + popcount (word_at (usedColors key) 1) +
     popcount (word_at (usedColors key) 2) + popcount (word_at (usedColors key) 3)"

text \<open>
  The keys the program can build: the zero value, \<^verbatim>\<open>useColor\<close> on such a key, and the result
  of \<^verbatim>\<open>without\<close>.
\<close>

inductive constructed :: "tilePaletteKey \<Rightarrow> bool" where
  zero: "constructed emptyKey"
| use: "constructed key \<Longrightarrow> constructed (useColor key c)"
| wo: "constructed (without key other)"

text \<open>The 256 byte values in ascending order; a key whose cached size is its cardinality.\<close>

definition all_bytes :: "byte list" where
  "all_bytes = map of_nat [0..<256]"

definition wf_key :: "tilePaletteKey \<Rightarrow> bool" where
  "wf_key key = (size_k key = int (card (colors key)))"

text \<open>Two concrete keys, \<open>{7, 64, 200}\<close> and \<open>{9, 200}\<close>.\<close>

definition kA :: tilePaletteKey where "kA = useColor (useColor (useColor emptyKey 7) 200) 64"
definition kB :: tilePaletteKey where "kB = useColor (useColor emptyKey 200) 9"

section \<open>Nested entries and the packer\<close>

text \<open>
  A Go map used as a set of keys (\<^verbatim>\<open>remainder\<close>, \<^verbatim>\<open>cache.keys\<close>) is a list without duplicates.
  The order in which \<^verbatim>\<open>range\<close> visits a map is not specified by Go, so every function that
  ranges over a map takes a parameter \<open>ord\<close> and visits \<open>ord m\<close>; the theorems hold for every
  \<open>ord\<close> that permutes its argument.
\<close>

type_synonym keyset = "tilePaletteKey list"
type_synonym rangeOrder = "tilePaletteKey list \<Rightarrow> tilePaletteKey list"

definition set_insert :: "tilePaletteKey \<Rightarrow> keyset \<Rightarrow> keyset" where
  "set_insert k m = (if k \<in> set m then m else m @ [k])"

definition set_delete :: "tilePaletteKey \<Rightarrow> keyset \<Rightarrow> keyset" where
  "set_delete k m = removeAll k m"

datatype nestedEntry = NestedEntry (entry_key: tilePaletteKey) (nested: "nestedEntry list")

fun byteSize :: "nestedEntry \<Rightarrow> int" where
  "byteSize (NestedEntry k ns) = size_k k + fold (\<lambda>n nestedSize. nestedSize + byteSize n) ns 0"

text \<open>
  A loop over a list whose body may fail: \<open>None\<close> is passed on, as a panic or a call that
  does not return ends the whole run.
\<close>

fun foldM :: "('a \<Rightarrow> 's \<Rightarrow> 's option) \<Rightarrow> 'a list \<Rightarrow> 's \<Rightarrow> 's option" where
  "foldM f [] s = Some s"
| "foldM f (x # xs) s = (case f x s of None \<Rightarrow> None | Some s' \<Rightarrow> foldM f xs s')"

text \<open>
  The loop \<^verbatim>\<open>for (keySize > 2) && (maxNested == nil)\<close> of \<^verbatim>\<open>populateRemaining\<close>. The parameter
  \<open>query\<close> is \<^verbatim>\<open>cache.query\<close>: it yields the populated entry of a key, or \<open>None\<close> when that
  call does not return. The cache only stores what \<^verbatim>\<open>populate\<close> computed for a key from the
  same, unchanged pool, so a hit and a fresh computation give the same entry and the cache
  itself is not part of the state. The goroutines deliver their results over a channel; they
  are received in the order the candidates were visited.
\<close>

function populateRemaining_loop ::
  "(tilePaletteKey \<Rightarrow> nestedEntry option) \<Rightarrow> rangeOrder \<Rightarrow> keyset \<Rightarrow> tilePaletteKey \<Rightarrow> int \<Rightarrow>
   int \<times> nestedEntry option \<Rightarrow> (int \<times> nestedEntry option) option" where
  "populateRemaining_loop query ord keys remainingKey keySize (maxByteSize, maxNested) =
     (if keySize > 2 \<and> maxNested = None then
        (case those (map query
                (filter (\<lambda>otherKey. size_k otherKey = keySize \<and> contains remainingKey otherKey)
                        (ord keys))) of
           None \<Rightarrow> None
         | Some results \<Rightarrow>
             populateRemaining_loop query ord keys remainingKey (keySize - 1)
               (fold (\<lambda>nested (maxByteSize, maxNested).
                        if byteSize nested > maxByteSize then (byteSize nested, Some nested)
                        else (maxByteSize, maxNested))
                     results (maxByteSize, maxNested)))
      else Some (maxByteSize, maxNested))"
  by pat_completeness auto
termination
  by (relation "measure (\<lambda>(query, ord, keys, remainingKey, keySize, m). nat keySize)") auto

text \<open>
  \<^verbatim>\<open>populateRemaining\<close> returns the entry with the found child appended, the child's key and
  whether a child was found.
\<close>

definition populateRemaining ::
  "(tilePaletteKey \<Rightarrow> nestedEntry option) \<Rightarrow> rangeOrder \<Rightarrow> keyset \<Rightarrow> nestedEntry \<Rightarrow>
   tilePaletteKey \<Rightarrow> int \<Rightarrow> (nestedEntry \<times> tilePaletteKey \<times> bool) option" where
  "populateRemaining query ord keys entry remainingKey startSize =
     (case populateRemaining_loop query ord keys remainingKey startSize (0, None) of
        None \<Rightarrow> None
      | Some (maxByteSize, None) \<Rightarrow> Some (entry, emptyKey, False)
      | Some (maxByteSize, Some maxNested) \<Rightarrow>
          Some (NestedEntry (entry_key entry) (nested entry @ [maxNested]),
                entry_key maxNested, True))"

text \<open>
  \<^verbatim>\<open>populate\<close> and its loop \<^verbatim>\<open>for remainingKey.size > 2 && foundSomething\<close>. The recursion
  through \<^verbatim>\<open>cache.query\<close> ends because nested keys get smaller, which holds for keys whose
  cached size is right but not for every value of the struct; the model therefore counts
  calls and loop rounds down from \<open>fuel\<close>, and \<open>None\<close> means that the fuel ran out.
\<close>

fun populate :: "nat \<Rightarrow> rangeOrder \<Rightarrow> keyset \<Rightarrow> nestedEntry \<Rightarrow> nestedEntry option"
  and populate_loop ::
    "nat \<Rightarrow> rangeOrder \<Rightarrow> keyset \<Rightarrow> nestedEntry \<Rightarrow> tilePaletteKey \<Rightarrow> int \<Rightarrow> bool \<Rightarrow> nestedEntry option"
where
  "populate 0 ord keys entry = None"
| "populate (Suc fuel) ord keys entry =
     populate_loop fuel ord keys entry (entry_key entry) (size_k (entry_key entry) - 1) True"
| "populate_loop 0 ord keys entry remainingKey keySearchSize foundSomething = None"
| "populate_loop (Suc fuel) ord keys entry remainingKey keySearchSize foundSomething =
     (if size_k remainingKey > 2 \<and> foundSomething then
        (case populateRemaining (\<lambda>key. populate fuel ord keys (NestedEntry key []))
                ord keys entry remainingKey keySearchSize of
           None \<Rightarrow> None
         | Some (entry', lastAddedKey, foundSomething') \<Rightarrow>
             populate_loop fuel ord keys entry' (without remainingKey lastAddedKey)
               (size_k (without remainingKey lastAddedKey)) foundSomething')
      else Some entry)"

text \<open>
  \<^verbatim>\<open>extractBuffer\<close>: the callback \<^verbatim>\<open>marker\<close> changes variables of its caller, so it is a
  function on a state that \<open>extractBuffer\<close> threads through.
\<close>

fun extractBuffer ::
  "nestedEntry \<Rightarrow> int \<Rightarrow> (tilePaletteKey \<Rightarrow> int \<Rightarrow> 's \<Rightarrow> 's) \<Rightarrow> 's \<Rightarrow> byte list \<times> 's" where
  "extractBuffer (NestedEntry k ns) startOffset marker s =
     (case fold (\<lambda>n (nestedBuffer, relativeOffset, s).
                   (case extractBuffer n (startOffset + relativeOffset) marker s of
                      (bufferPart, s') \<Rightarrow>
                        (nestedBuffer @ bufferPart, relativeOffset + size_k (entry_key n), s')))
                ns ([], 0, marker k startOffset s) of
        (nestedBuffer, relativeOffset, s') \<Rightarrow> (joinedBuffer k nestedBuffer, s'))"

definition entry_buffer :: "nestedEntry \<Rightarrow> byte list" where
  "entry_buffer entry = fst (extractBuffer entry 0 (\<lambda>k offset s. s) ())"

section \<open>The lookup and its generator\<close>

text \<open>
  Modelled from the spec: the constant \<^verbatim>\<open>PixelPerTile\<close> and the type \<^verbatim>\<open>tileDelta\<close> are declared
  in a file of the package that is not part of the sources at hand. The spec gives
  \<^verbatim>\<open>PixelPerTile\<close> as 16 and a tile delta as a sequence of \<^verbatim>\<open>PixelPerTile\<close> palette indices,
  each a byte; a tile delta is a list of bytes of that length.
\<close>

definition PixelPerTile :: int where
  "PixelPerTile = 16"

type_synonym tileDelta = "byte list"

definition is_tile :: "tileDelta \<Rightarrow> bool" where
  "is_tile tile = (int (length tile) = PixelPerTile)"

record PaletteLookup =
  buffer :: "byte list"
  starts :: "tilePaletteKey \<rightharpoonup> int"

text \<open>
  The slice expression \<^verbatim>\<open>xs[lo:hi]\<close>, which panics out of range. Go checks \<^verbatim>\<open>hi\<close> against the
  capacity of \<^verbatim>\<open>xs\<close>; the model checks it against the length, so it treats a read of the
  bytes between length and capacity as a failure too.
\<close>

definition go_slice :: "'a list \<Rightarrow> int \<Rightarrow> int \<Rightarrow> 'a list option" where
  "go_slice xs lo hi =
     (if 0 \<le> lo \<and> lo \<le> hi \<and> hi \<le> int (length xs)
      then Some (take (nat (hi - lo)) (drop (nat lo) xs)) else None)"

text \<open>\<^verbatim>\<open>bits.Len\<close>: the number of bits needed to write an unsigned 64-bit value.\<close>

fun bit_length :: "nat \<Rightarrow> nat" where
  "bit_length n = (if n = 0 then 0 else Suc (bit_length (n div 2)))"

definition bits_Len :: "uint64 \<Rightarrow> nat" where
  "bits_Len w = bit_length (unat w)"

text \<open>The key of a tile, as \<^verbatim>\<open>Lookup\<close> and \<^verbatim>\<open>Add\<close> both compute it.\<close>

definition tile_key :: "tileDelta \<Rightarrow> tilePaletteKey" where
  "tile_key tile = fold (\<lambda>pal key. useColor key pal) tile emptyKey"

text \<open>
  \<^verbatim>\<open>Lookup\<close>. A key missing from \<^verbatim>\<open>starts\<close> gives the zero value of \<^verbatim>\<open>int\<close> as index.
  \<open>None\<close> is the panic of the slice expression.
\<close>

definition Lookup :: "PaletteLookup \<Rightarrow> tileDelta \<Rightarrow> (int \<times> byte list \<times> uint64) option" where
  "Lookup lookup tile =
     (let key = tile_key tile;
          (index, inLookup) = (case starts lookup key of None \<Rightarrow> (0, False) | Some i \<Rightarrow> (i, True))
      in case (if inLookup then go_slice (buffer lookup) index (index + size_k key)
               else Some (key_buffer key)) of
           None \<Rightarrow> None
         | Some pal \<Rightarrow>
             let mapped = fold (\<lambda>(mappedIndex, b) mapped. mapped(b := (of_nat mappedIndex :: byte)))
                               (enumerate 0 pal) (\<lambda>b. 0);
                 bitSize = bits_Len (word_of_int (size_k key - 1));
                 mask = fold (\<lambda>tileIndex mask.
                                push_bit bitSize mask OR (ucast (mapped (tile ! tileIndex)) :: uint64))
                             (rev [0..<nat PixelPerTile]) 0
             in Some (index, pal, mask))"

text \<open>
  The generator. \<^verbatim>\<open>keyUses\<close> is a map from keys to counts, kept as an association list; a nil
  map is the empty list.
\<close>

record PaletteLookupGenerator =
  keyUses :: "(tilePaletteKey \<times> int) list"

definition newGenerator :: PaletteLookupGenerator where
  "newGenerator = \<lparr>keyUses = []\<rparr>"

definition Add :: "PaletteLookupGenerator \<Rightarrow> tileDelta \<Rightarrow> PaletteLookupGenerator" where
  "Add gen delta =
     (let key = tile_key delta
      in if size_k key > 2
         then gen\<lparr>keyUses :=
                (case map_of (keyUses gen) key of
                   None \<Rightarrow> keyUses gen @ [(key, 1)]
                 | Some uses \<Rightarrow> map (\<lambda>(k, n). if k = key then (k, uses + 1) else (k, n)) (keyUses gen))\<rparr>
         else gen)"

text \<open>
  The scan of prefix scavenging for one key:
  \<^verbatim>\<open>for start := 0; start < (len(lookup.buffer)-key.size) && !wasRemoved; start++\<close>.
\<close>

function scavenge_loop ::
  "byte list \<Rightarrow> tilePaletteKey \<Rightarrow> int \<Rightarrow> bool \<times> keyset \<times> (tilePaletteKey \<rightharpoonup> int) \<Rightarrow>
   (bool \<times> keyset \<times> (tilePaletteKey \<rightharpoonup> int)) option" where
  "scavenge_loop buf key start (wasRemoved, earlyRemoved, sts) =
     (if start < int (length buf) - size_k key \<and> \<not> wasRemoved then
        (case go_slice buf start (start + size_k key) of
           None \<Rightarrow> None
         | Some window \<Rightarrow>
             scavenge_loop buf key (start + 1)
               (if contains (fold (\<lambda>color tempKey. useColor tempKey color) window emptyKey) key
                then (True, earlyRemoved @ [key], sts(key \<mapsto> start))
                else (wasRemoved, earlyRemoved, sts)))
      else Some (wasRemoved, earlyRemoved, sts))"
  by pat_completeness auto
termination
  by (relation "measure (\<lambda>(buf, key, start, s). nat (int (length buf) - size_k key - start))") auto

definition scavenge ::
  "rangeOrder \<Rightarrow> int \<Rightarrow> PaletteLookup \<times> keyset \<Rightarrow> (PaletteLookup \<times> keyset) option" where
  "scavenge ord sz st =
     (case st of (lookup, remainder) \<Rightarrow>
        (case foldM (\<lambda>key (earlyRemoved, sts).
                       if size_k key = sz
                       then (case scavenge_loop (buffer lookup) key 0 (False, earlyRemoved, sts) of
                               None \<Rightarrow> None
                             | Some (wasRemoved, earlyRemoved', sts') \<Rightarrow> Some (earlyRemoved', sts'))
                       else Some (earlyRemoved, sts))
                    (ord remainder) ([], starts lookup) of
           None \<Rightarrow> None
         | Some (earlyRemoved, sts) \<Rightarrow>
             Some (lookup\<lparr>starts := sts\<rparr>, fold set_delete earlyRemoved remainder)))"

text \<open>The body of \<^verbatim>\<open>for _, key := range keysInSize\<close>: nested packing of one key.\<close>

definition pack_key ::
  "nat \<Rightarrow> rangeOrder \<Rightarrow> tilePaletteKey \<Rightarrow> PaletteLookup \<times> keyset \<Rightarrow> (PaletteLookup \<times> keyset) option" where
  "pack_key fuel ord key st =
     (case st of (lookup, remainder) \<Rightarrow>
        (case populate fuel ord remainder (NestedEntry key []) of
           None \<Rightarrow> None
         | Some nestedRoot \<Rightarrow>
             (case extractBuffer nestedRoot (int (length (buffer lookup)))
                     (\<lambda>nestedKey offset (toRemove, sts).
                        (toRemove @ [nestedKey], sts(nestedKey \<mapsto> offset)))
                     ([], starts lookup) of
                (bytes, toRemove, sts) \<Rightarrow>
                  Some (\<lparr>buffer = buffer lookup @ bytes, starts = sts\<rparr>,
                        fold set_delete toRemove remainder))))"

text \<open>The body of \<^verbatim>\<open>for size := PixelPerTile; size > 2; size--\<close>, and the loop.\<close>

definition size_pass ::
  "nat \<Rightarrow> rangeOrder \<Rightarrow> int \<Rightarrow> PaletteLookup \<times> keyset \<Rightarrow> (PaletteLookup \<times> keyset) option" where
  "size_pass fuel ord sz st =
     (case scavenge ord sz st of
        None \<Rightarrow> None
      | Some (lookup, remainder) \<Rightarrow>
          foldM (pack_key fuel ord) (filter (\<lambda>key. size_k key = sz) (ord remainder))
                (lookup, remainder))"

function size_loop ::
  "nat \<Rightarrow> rangeOrder \<Rightarrow> int \<Rightarrow> PaletteLookup \<times> keyset \<Rightarrow> (PaletteLookup \<times> keyset) option" where
  "size_loop fuel ord sz st =
     (if sz > 2 then
        (case size_pass fuel ord sz st of
           None \<Rightarrow> None
         | Some st' \<Rightarrow> size_loop fuel ord (sz - 1) st')
      else Some st)"
  by pat_completeness auto
termination
  by (relation "measure (\<lambda>(fuel, ord, sz, st). nat sz)") auto

text \<open>The last loop of \<^verbatim>\<open>Generate\<close>, which places what is left one key after the other.\<close>

definition place_key :: "tilePaletteKey \<Rightarrow> PaletteLookup \<Rightarrow> PaletteLookup" where
  "place_key key lookup =
     \<lparr>buffer = buffer lookup @ key_buffer key,
      starts = (starts lookup)(key \<mapsto> int (length (buffer lookup)))\<rparr>"

definition place_rest :: "rangeOrder \<Rightarrow> PaletteLookup \<times> keyset \<Rightarrow> PaletteLookup" where
  "place_rest ord st = (case st of (lookup, remainder) \<Rightarrow> fold place_key (ord remainder) lookup)"

definition Generate :: "nat \<Rightarrow> rangeOrder \<Rightarrow> PaletteLookupGenerator \<Rightarrow> PaletteLookup option" where
  "Generate fuel ord gen =
     (let lookup = \<lparr>buffer = [], starts = Map.empty\<rparr>;
          remainder = fold set_insert (ord (map fst (keyUses gen))) []
      in case size_loop fuel ord PixelPerTile (lookup, remainder) of
           None \<Rightarrow> None
         | Some st \<Rightarrow> Some (place_rest ord st))"

section \<open>Well-formed nested entries\<close>

text \<open>
  What \<open>populate\<close> builds from a pool \<open>P\<close> of keys: every child is a key of the pool with more
  than two colours and fewer than its parent, the children of a node are pairwise disjoint
  and lie inside the node's key.
\<close>

fun disjoint_keys :: "nestedEntry list \<Rightarrow> bool" where
  "disjoint_keys [] = True"
| "disjoint_keys (n # ns) =
     ((\<forall>m\<in>set ns. colors (entry_key n) \<inter> colors (entry_key m) = {}) \<and> disjoint_keys ns)"

fun good :: "tilePaletteKey set \<Rightarrow> nestedEntry \<Rightarrow> bool" where
  "good P (NestedEntry k ns) =
     (wf_key k \<and> disjoint_keys ns \<and>
      (\<forall>n\<in>set ns. good P n \<and> entry_key n \<in> P \<and> 2 < size_k (entry_key n) \<and>
                    size_k (entry_key n) < size_k k \<and> colors (entry_key n) \<subseteq> colors k))"

text \<open>The invariant of the loop of \<open>populate\<close>.\<close>

definition loop_inv ::
  "tilePaletteKey set \<Rightarrow> nestedEntry \<Rightarrow> tilePaletteKey \<Rightarrow> int \<Rightarrow> bool \<Rightarrow> bool" where
  "loop_inv P e rem s f =
     (good P e \<and> wf_key rem \<and> colors rem \<subseteq> colors (entry_key e) \<and>
      (\<forall>n\<in>set (nested e). colors (entry_key n) \<inter> colors rem = {}) \<and>
      (f \<longrightarrow> s < size_k (entry_key e)))"

text \<open>
  The bytes \<open>extractBuffer\<close> returns and the calls of \<open>marker\<close> it makes, in order, as
  functions of the entry alone.
\<close>

fun ebytes :: "nestedEntry \<Rightarrow> byte list" where
  "ebytes (NestedEntry k ns) = joinedBuffer k (concat (map ebytes ns))"

fun marks :: "nestedEntry \<Rightarrow> int \<Rightarrow> (tilePaletteKey \<times> int) list"
  and marks_list :: "nestedEntry list \<Rightarrow> int \<Rightarrow> (tilePaletteKey \<times> int) list" where
  "marks (NestedEntry k ns) off = (k, off) # marks_list ns off"
| "marks_list [] off = []"
| "marks_list (n # ns) off = marks n off @ marks_list ns (off + size_k (entry_key n))"

text \<open>
  A key is placed at an offset of a buffer when the window of its size there is in range,
  has no byte twice and holds exactly the colours of the key.
\<close>

definition placed :: "byte list \<Rightarrow> tilePaletteKey \<Rightarrow> int \<Rightarrow> bool" where
  "placed buf k off =
     (case go_slice buf off (off + size_k k) of
        None \<Rightarrow> False
      | Some w \<Rightarrow> distinct w \<and> set w = colors k)"

text \<open>
  The invariant of \<open>Generate\<close> for a set \<open>R\<close> of registered keys whose sizes add up to at most
  \<open>tot\<close>: every entry of \<open>starts\<close> is placed in the buffer, every registered key is still
  in the remainder or has an entry, and the buffer is no longer than what the placed keys
  account for.
\<close>

definition gen_inv :: "tilePaletteKey set \<Rightarrow> int \<Rightarrow> PaletteLookup \<times> keyset \<Rightarrow> bool" where
  "gen_inv R tot st =
     (case st of (lookup, remainder) \<Rightarrow>
        distinct remainder \<and> set remainder \<subseteq> R \<and>
        (\<forall>k p. starts lookup k = Some p \<longrightarrow> placed (buffer lookup) k p) \<and>
        (\<forall>k\<in>R. k \<in> set remainder \<or> starts lookup k \<noteq> None) \<and>
        int (length (buffer lookup)) + (\<Sum>k\<in>set remainder. size_k k) \<le> tot)"

text \<open>Tile deltas with the keys \<open>{10, 20, 30, 40, 50}\<close> and \<open>{10, 30, 50}\<close>.\<close>

definition tK1 :: tileDelta where
  "tK1 = [10, 20, 30, 40, 50, 10, 10, 10, 10, 10, 10, 10, 10, 10, 10, 10]"

definition tK2 :: tileDelta where
  "tK2 = [10, 30, 50, 10, 10, 10, 10, 10, 10, 10, 10, 10, 10, 10, 10, 10]"

section \<open>Bitset laws of palette keys\<close>

lemma word_at_upd:
  "i < 4 \<Longrightarrow> j < 4 \<Longrightarrow> word_at (word_upd ws i w) j = (if j = i then w else word_at ws j)"
  by (cases ws) auto

lemma byte_div64: "unat (c div 64) < 4" for c :: byte
proof -
  have "unat c < 256" using unsigned_less [of c, where 'a = nat] by simp
  then show ?thesis by (simp add: unat_div_distrib)
qed

lemma byte_mod64: "unat (c mod 64) < 64" for c :: byte
  by (simp add: unat_mod_distrib)

lemma byte_eq_iff:
  "(c = d) = (unat (c div 64) = unat (d div 64) \<and> unat (c mod 64) = unat (d mod 64))"
  for c d :: byte
proof
  assume "unat (c div 64) = unat (d div 64) \<and> unat (c mod 64) = unat (d mod 64)"
  then have "unat c div 64 = unat d div 64" "unat c mod 64 = unat d mod 64"
    by (simp_all add: unat_div_distrib unat_mod_distrib)
  then have "unat c = unat d" by (metis div_mult_mod_eq)
  then show "c = d" by (simp add: word_eq_iff_unsigned [where 'a = nat])
qed simp

lemma hasColor_bit:
  "hasColor key c = bit (word_at (usedColors key) (unat (c div 64))) (unat (c mod 64))"
  by (simp add: hasColor_def bit_iff_and_push_bit_not_eq_0)

lemma hasColor_emptyKey [simp]: "\<not> hasColor emptyKey c"
  by (simp add: hasColor_def emptyKey_def)

lemma hasColor_useColor [simp]: "hasColor (useColor key c) d = (d = c \<or> hasColor key d)"
proof (cases "hasColor key c")
  case True
  then show ?thesis by (auto simp: useColor_def)
next
  case False
  have "bit (push_bit (unat (c mod 64)) (1 :: uint64)) n = (n = unat (c mod 64))" for n
    using byte_mod64 [of c] by (auto simp: bit_simps)
  with False show ?thesis
    using byte_div64 [of c] byte_div64 [of d]
    by (auto simp: useColor_def hasColor_bit word_at_upd bit_or_iff byte_eq_iff [of d c])
qed

lemma size_useColor:
  "size_k (useColor key c) = (if hasColor key c then size_k key else size_k key + 1)"
  by (simp add: useColor_def)

lemma colors_emptyKey [simp]: "colors emptyKey = {}"
  by (simp add: colors_def)

lemma colors_useColor [simp]: "colors (useColor key c) = insert c (colors key)"
  by (auto simp: colors_def)

lemma word_subset_iff: "(NOT a AND b = 0) = (\<forall>n. bit b n \<longrightarrow> bit a n)" for a b :: uint64
proof -
  have "bit b n \<Longrightarrow> n < 64" for n using bit_imp_le_length [of b n] by simp
  then show ?thesis by (auto simp: bit_eq_iff bit_and_iff bit_not_iff)
qed

lemma byte_of_parts:
  assumes "i < 4" "n < 64"
  shows "unat ((of_nat (64 * i + n) :: byte) div 64) = i"
    and "unat ((of_nat (64 * i + n) :: byte) mod 64) = n"
proof -
  have "64 * i + n < 256" using assms by simp
  then have "unat (of_nat (64 * i + n) :: byte) = 64 * i + n"
    by (simp add: unat_of_nat del: of_nat_add of_nat_mult)
  then show "unat ((of_nat (64 * i + n) :: byte) div 64) = i"
    and "unat ((of_nat (64 * i + n) :: byte) mod 64) = n"
    using assms by (simp_all add: unat_div_distrib unat_mod_distrib del: of_nat_add of_nat_mult)
qed

lemma contains_iff: "contains key other = (colors other \<subseteq> colors key)"
proof
  assume c: "contains key other"
  show "colors other \<subseteq> colors key"
  proof
    fix x assume "x \<in> colors other"
    then have b: "bit (word_at (usedColors other) (unat (x div 64))) (unat (x mod 64))"
      by (simp add: colors_def hasColor_bit)
    have "unat (x div 64) \<in> {0, 1, 2, 3}" using byte_div64 [of x] by auto
    with c b have "bit (word_at (usedColors key) (unat (x div 64))) (unat (x mod 64))"
      by (auto simp: contains_def word_subset_iff)
    then show "x \<in> colors key" by (simp add: colors_def hasColor_bit)
  qed
next
  assume s: "colors other \<subseteq> colors key"
  have "bit (word_at (usedColors key) i) n"
    if "i < 4" "bit (word_at (usedColors other) i) n" for i n
  proof -
    have n: "n < 64" using that(2) bit_imp_le_length by fastforce
    define c :: byte where "c = of_nat (64 * i + n)"
    have p: "unat (c div 64) = i" "unat (c mod 64) = n"
      unfolding c_def using byte_of_parts [OF that(1) n] by blast+
    have "c \<in> colors other"
      using that by (simp add: colors_def hasColor_bit p)
    with s have "c \<in> colors key" by blast
    then show ?thesis by (simp add: colors_def hasColor_bit p)
  qed
  then show "contains key other" by (simp add: contains_def word_subset_iff)
qed
lemma set_all_bytes [simp]: "set all_bytes = UNIV"
proof -
  have "c \<in> set all_bytes" for c :: byte
  proof -
    have "unat c < 256" using unsigned_less [of c, where 'a = nat] by simp
    then have "of_nat (unat c) \<in> set all_bytes" unfolding all_bytes_def by (simp del: of_nat_unat)
    then show ?thesis by simp
  qed
  then show ?thesis by blast
qed

lemma unat_all_bytes: "map unat all_bytes = [0..<256]"
proof -
  have "map unat (map (of_nat :: nat \<Rightarrow> byte) [0..<256]) = map id [0..<256]"
    unfolding map_map by (rule map_cong) (simp_all add: unat_of_nat)
  then show ?thesis by (simp add: all_bytes_def)
qed

lemma distinct_all_bytes [simp]: "distinct all_bytes"
proof -
  have "distinct (map unat all_bytes)" by (simp add: unat_all_bytes)
  then show ?thesis by (simp add: distinct_map)
qed

lemma sorted_all_bytes [simp]: "sorted all_bytes"
proof -
  have "sorted (map unat all_bytes)" by (simp add: unat_all_bytes)
  then show ?thesis by (simp add: sorted_map word_le_nat_alt [abs_def] sorted_wrt_map)
qed

lemma fold_cond:
  "fold (\<lambda>i r. if P (f i) then g r (f i) else r) xs r0 = fold (\<lambda>c r. g r c) (filter P (map f xs)) r0"
  by (induction xs arbitrary: r0) auto

lemma fold_snoc: "fold (\<lambda>c r. r @ [c]) xs r0 = r0 @ xs"
  by (induction xs arbitrary: r0) auto

lemma key_buffer_eq: "key_buffer key = filter (hasColor key) all_bytes"
  unfolding key_buffer_def all_bytes_def
  by (simp only: fold_cond [where g = "\<lambda>r c. r @ [c]"] fold_snoc append_Nil)

lemma without_eq:
  "without key other =
     fold (\<lambda>c r. useColor r c) (filter (\<lambda>c. hasColor key c \<and> \<not> hasColor other c) all_bytes) emptyKey"
  unfolding without_def all_bytes_def
  by (simp only: fold_cond [where g = useColor and P = "\<lambda>c. hasColor key c \<and> \<not> hasColor other c"])

lemma colors_fold_useColor [simp]: "colors (fold (\<lambda>c r. useColor r c) cs key) = colors key \<union> set cs"
  by (induction cs arbitrary: key) auto

lemma mem_colors: "(c \<in> colors key) = hasColor key c"
  by (simp add: colors_def)

lemma size_emptyKey [simp]: "size_k emptyKey = 0"
  by (simp add: emptyKey_def)

lemma wf_emptyKey [simp]: "wf_key emptyKey"
  by (simp add: wf_key_def)

lemma wf_useColor [simp]: "wf_key key \<Longrightarrow> wf_key (useColor key c)"
  by (simp add: wf_key_def size_useColor mem_colors [symmetric] insert_absorb)

lemma wf_fold_useColor [simp]: "wf_key key \<Longrightarrow> wf_key (fold (\<lambda>c r. useColor r c) cs key)"
  by (induction cs arbitrary: key) auto

lemma colors_without [simp]: "colors (without key other) = colors key - colors other"
  by (auto simp: without_eq mem_colors)

lemma wf_without [simp]: "wf_key (without key other)"
  by (simp add: without_eq)

lemma set_key_buffer [simp]: "set (key_buffer key) = colors key"
  by (auto simp: key_buffer_eq mem_colors)

lemma distinct_key_buffer [simp]: "distinct (key_buffer key)"
  by (simp add: key_buffer_eq)

lemma sorted_key_buffer [simp]: "sorted (key_buffer key)"
  by (simp add: key_buffer_eq sorted_wrt_filter)

lemma bit_lt64: "bit w n \<Longrightarrow> n < 64" for w :: uint64
  using bit_imp_le_length [of w n] by simp

lemma popcount_card: "popcount w = card {n. bit w n}"
proof -
  have "{n. bit w n} = set (filter (bit w) [0..<64])"
    by (auto dest: bit_lt64)
  moreover have "card (set (filter (bit w) [0..<64])) = length (filter (bit w) [0..<64])"
    by (rule distinct_card) simp
  ultimately show ?thesis by (simp only: popcount_def)
qed

lemma card_colors: "card (colors key) = popcount4 key"
proof -
  define f :: "byte \<Rightarrow> nat \<times> nat" where "f c = (unat (c div 64), unat (c mod 64))" for c
  define B where "B i = {n. bit (word_at (usedColors key) i) n}" for i
  have inj: "inj_on f (colors key)"
    by (rule inj_onI) (simp add: f_def byte_eq_iff)
  have fin: "finite (B i)" for i
  proof -
    have "B i \<subseteq> {..<64}" by (auto simp: B_def dest: bit_lt64)
    then show ?thesis by (rule finite_subset) simp
  qed
  have img: "f ` colors key = (SIGMA i:{0..<4}. B i)"
  proof (intro set_eqI iffI)
    fix p assume "p \<in> f ` colors key"
    then obtain c where "hasColor key c" "p = f c" by (auto simp: mem_colors)
    then show "p \<in> (SIGMA i:{0..<4}. B i)"
      using byte_div64 [of c] by (simp add: f_def B_def hasColor_bit)
  next
    fix p assume p: "p \<in> (SIGMA i:{0..<4}. B i)"
    obtain i n where [simp]: "p = (i, n)" by (cases p)
    from p have i: "i < 4" and b: "bit (word_at (usedColors key) i) n" by (simp_all add: B_def)
    from b have n: "n < 64" by (rule bit_lt64)
    define c :: byte where "c = of_nat (64 * i + n)"
    have q: "unat (c div 64) = i" "unat (c mod 64) = n"
      unfolding c_def using byte_of_parts [OF i n] by blast+
    have "c \<in> colors key" using b by (simp add: mem_colors hasColor_bit q)
    moreover have "f c = p" by (simp add: f_def q)
    ultimately show "p \<in> f ` colors key" by blast
  qed
  have "card (colors key) = card (f ` colors key)"
    using inj by (simp add: card_image)
  also have "\<dots> = (\<Sum>i\<in>{0..<4}. card (B i))"
    unfolding img by (rule card_SigmaI) (simp_all add: fin)
  also have "\<dots> = card (B 0) + card (B 1) + card (B 2) + card (B 3)"
    by (simp add: eval_nat_numeral)
  finally show ?thesis by (simp add: popcount4_def popcount_card B_def)
qed

lemma wf_key_popcount: "wf_key key = (size_k key = int (popcount4 key))"
  by (simp add: wf_key_def card_colors)

lemma constructed_wf: "constructed key \<Longrightarrow> wf_key key"
  by (induction rule: constructed.induct) simp_all

lemma size_without:
  assumes "wf_key A"
  shows "size_k (without A B) = size_k A - int (card (colors A \<inter> colors B))"
proof -
  have "size_k (without A B) = int (card (colors A - colors B))"
    using wf_without [of A B] by (simp add: wf_key_def)
  also have "card (colors A - colors B) = card (colors A) - card (colors A \<inter> colors B)"
    by (simp add: card_Diff_subset_Int)
  also have "int \<dots> = int (card (colors A)) - int (card (colors A \<inter> colors B))"
    by (simp add: card_mono of_nat_diff)
  finally show ?thesis using assms by (simp add: wf_key_def)
qed

text \<open>
  Claim C7. For all keys \<open>A\<close> and \<open>B\<close>: \<open>A.contains(B)\<close> holds exactly when the union of
  their colour sets is the set of \<open>A\<close>; if the cached size of \<open>A\<close> is the popcount of its four
  words, the size of \<open>A.without(B)\<close> is the size of \<open>A\<close> minus the number of colours the two
  share; and every key built from the zero value through \<open>useColor\<close> and \<open>without\<close> has a cached
  size equal to the popcount of its four words.
\<close>

theorem bitset_laws:
  "(contains A B \<longleftrightarrow> colors A \<union> colors B = colors A) \<and>
   (size_k A = int (popcount4 A) \<longrightarrow>
      size_k (without A B) = size_k A - int (card (colors A \<inter> colors B))) \<and>
   (constructed K \<longrightarrow> size_k K = int (popcount4 K))"
  using size_without [of A B] constructed_wf [of K]
  by (auto simp: contains_iff wf_key_popcount)

theorem bitset_laws_witness:
  "size_k kA = int (popcount4 kA) \<and> constructed (without kA kB) \<and>
   \<not> contains kA kB \<and> colors kA \<union> colors kB \<noteq> colors kA \<and>
   size_k (without kA kB) = 3 - 1 \<and> size_k (without kA kB) = int (popcount4 (without kA kB))"
proof -
  have a: "size_k kA = int (popcount4 kA)"
    by (simp add: wf_key_popcount [symmetric] kA_def)
  have c: "constructed (without kA kB)" by (rule constructed.wo)
  have s: "size_k kA = 3"
    by (simp add: kA_def size_useColor)
  have i: "colors kA \<inter> colors kB = {200}" by (auto simp: kA_def kB_def)
  have "9 \<in> colors kB" "9 \<notin> colors kA" by (simp_all add: kA_def kB_def)
  then have n: "colors kA \<union> colors kB \<noteq> colors kA" by blast
  show ?thesis
    using bitset_laws [of kA kB "without kA kB"] a c s i n by simp
qed

section \<open>The packer builds well-formed entries\<close>

lemma those_map_Some:
  "those (map f xs) = Some ys \<Longrightarrow> y \<in> set ys \<Longrightarrow> \<exists>x\<in>set xs. f x = Some y"
  by (induction xs arbitrary: ys) (auto split: option.splits)

lemma those_map_not_None: "(\<forall>x\<in>set xs. f x \<noteq> None) \<Longrightarrow> those (map f xs) \<noteq> None"
  by (induction xs) (auto split: option.splits)

lemma fold_max_Some:
  "fold (\<lambda>n (mb, mn). if mb < byteSize n then (byteSize n, Some n) else (mb, mn)) rs (mb, mn)
     = (mb', Some x) \<Longrightarrow> mn = Some x \<or> x \<in> set rs"
  by (induction rs arbitrary: mb mn) (auto split: if_splits)

lemma populateRemaining_loop_found:
  assumes "populateRemaining_loop query ord keys rem ks m = Some (mb', Some n)"
    and "snd m = None"
  shows "\<exists>k\<in>set (ord keys). 2 < size_k k \<and> size_k k \<le> ks \<and> contains rem k \<and> query k = Some n"
  using assms
proof (induction query ord keys rem ks m rule: populateRemaining_loop.induct)
  case (1 query ord keys rem ks mb mn)
  let ?cands = "filter (\<lambda>otherKey. size_k otherKey = ks \<and> contains rem otherKey) (ord keys)"
  let ?step = "\<lambda>nested (maxByteSize, maxNested).
                  if maxByteSize < byteSize nested then (byteSize nested, Some nested)
                  else (maxByteSize, maxNested)"
  from "1.prems" have mn: "mn = None" by simp
  from "1.prems" have ks: "2 < ks"
    by (auto split: if_splits)
  from "1.prems" ks mn obtain results where
    res: "those (map query ?cands) = Some results"
    and rec: "populateRemaining_loop query ord keys rem (ks - 1) (fold ?step results (mb, mn))
              = Some (mb', Some n)"
    by (auto split: option.splits)
  obtain mb2 mn2 where f: "fold ?step results (mb, mn) = (mb2, mn2)" by (cases "fold ?step results (mb, mn)")
  show ?case
  proof (cases mn2)
    case None
    with "1.IH" [OF _ res] ks mn rec f
    have "\<exists>k\<in>set (ord keys). 2 < size_k k \<and> size_k k \<le> ks - 1 \<and> contains rem k \<and> query k = Some n"
      by simp
    then show ?thesis by auto
  next
    case (Some x)
    with rec f have "x = n" by simp
    with f Some mn have "n \<in> set results" using fold_max_Some [of results mb mn mb2 n] by simp
    with res obtain k where "k \<in> set ?cands" "query k = Some n" by (blast dest: those_map_Some)
    with ks show ?thesis by auto
  qed
qed

lemma populateRemaining_loop_Some:
  assumes "\<forall>k\<in>set (ord keys). 2 < size_k k \<and> size_k k \<le> ks \<and> contains rem k \<longrightarrow> query k \<noteq> None"
  shows "populateRemaining_loop query ord keys rem ks m \<noteq> None"
  using assms
proof (induction query ord keys rem ks m rule: populateRemaining_loop.induct)
  case (1 query ord keys rem ks mb mn)
  show ?case
  proof (cases "2 < ks \<and> mn = None")
    case True
    let ?cands = "filter (\<lambda>otherKey. size_k otherKey = ks \<and> contains rem otherKey) (ord keys)"
    have "those (map query ?cands) \<noteq> None"
      using "1.prems" True by (intro those_map_not_None) auto
    then obtain results where res: "those (map query ?cands) = Some results" by blast
    have "\<forall>k\<in>set (ord keys). 2 < size_k k \<and> size_k k \<le> ks - 1 \<and> contains rem k \<longrightarrow> query k \<noteq> None"
      using "1.prems" by auto
    from "1.IH" [OF True res this] res True show ?thesis by simp
  next
    case False
    then show ?thesis by auto
  qed
qed

lemma populateRemaining_cases:
  assumes "populateRemaining query ord keys entry rem ks = Some (entry', lk, found)"
  shows "(\<not> found \<and> entry' = entry \<and> lk = emptyKey) \<or>
         (found \<and> (\<exists>n k. entry' = NestedEntry (entry_key entry) (nested entry @ [n]) \<and>
                     lk = entry_key n \<and> k \<in> set (ord keys) \<and> 2 < size_k k \<and>
                     size_k k \<le> ks \<and> contains rem k \<and> query k = Some n))"
proof -
  from assms obtain mb mn where
    l: "populateRemaining_loop query ord keys rem ks (0, None) = Some (mb, mn)"
    by (auto simp: populateRemaining_def split: option.splits)
  show ?thesis
  proof (cases mn)
    case None
    with assms l show ?thesis by (simp add: populateRemaining_def)
  next
    case (Some n)
    with l obtain k where k: "k \<in> set (ord keys)" "2 < size_k k" "size_k k \<le> ks"
      "contains rem k" "query k = Some n"
      using populateRemaining_loop_found [of query ord keys rem ks "(0, None)" mb n] by auto
    from assms l Some have e: "entry' = NestedEntry (entry_key entry) (nested entry @ [n])"
      "lk = entry_key n" "found" by (simp_all add: populateRemaining_def)
    with k show ?thesis by blast
  qed
qed

lemma populateRemaining_Some:
  assumes "\<forall>k\<in>set (ord keys). 2 < size_k k \<and> size_k k \<le> ks \<and> contains rem k \<longrightarrow> query k \<noteq> None"
  shows "populateRemaining query ord keys entry rem ks \<noteq> None"
  using populateRemaining_loop_Some [of ord keys ks rem query "(0, None)"] assms
  by (auto simp: populateRemaining_def split: option.splits)

lemma finite_colors [simp]: "finite (colors k)"
  by simp

lemma good_iff:
  "good P e =
     (wf_key (entry_key e) \<and> disjoint_keys (nested e) \<and>
      (\<forall>n\<in>set (nested e). good P n \<and> entry_key n \<in> P \<and> 2 < size_k (entry_key n) \<and>
          size_k (entry_key n) < size_k (entry_key e) \<and>
          colors (entry_key n) \<subseteq> colors (entry_key e)))"
  by (cases e) simp

lemma disjoint_keys_snoc:
  "disjoint_keys (ns @ [n]) =
     (disjoint_keys ns \<and> (\<forall>m\<in>set ns. colors (entry_key m) \<inter> colors (entry_key n) = {}))"
  by (induction ns) auto

lemma loop_inv_init: "wf_key (entry_key e) \<Longrightarrow> nested e = [] \<Longrightarrow>
    loop_inv P e (entry_key e) (size_k (entry_key e) - 1) True"
  by (simp add: loop_inv_def good_iff [of P e])

lemma loop_inv_not_found:
  "loop_inv P e rem s f \<Longrightarrow> loop_inv P e (without rem emptyKey) s' False"
  by (simp add: loop_inv_def)

lemma loop_inv_found:
  assumes inv: "loop_inv P e rem s True"
    and n: "good P n" "entry_key n \<in> P" "wf_key (entry_key n)" "2 < size_k (entry_key n)"
      "size_k (entry_key n) \<le> s" "contains rem (entry_key n)"
  shows "loop_inv P (NestedEntry (entry_key e) (nested e @ [n])) (without rem (entry_key n))
           (size_k (without rem (entry_key n))) True"
proof -
  let ?k = "entry_key n"
  from n have sub: "colors ?k \<subseteq> colors rem" by (simp add: contains_iff)
  from inv have g: "good P e" and r: "colors rem \<subseteq> colors (entry_key e)"
    and d: "\<forall>m\<in>set (nested e). colors (entry_key m) \<inter> colors rem = {}"
    and s: "s < size_k (entry_key e)" and wfe: "wf_key (entry_key e)"
    by (simp_all add: loop_inv_def good_iff [of P e])
  have "card (colors ?k) > 0" using n by (simp add: wf_key_def)
  then have ne: "colors ?k \<noteq> {}" by auto
  have "colors rem - colors ?k \<subset> colors rem" using sub ne by blast
  then have "card (colors rem - colors ?k) < card (colors rem)"
    by (intro psubset_card_mono) simp_all
  also have "\<dots> \<le> card (colors (entry_key e))" using r by (intro card_mono) simp_all
  finally have lt: "size_k (without rem ?k) < size_k (entry_key e)"
    using wf_without [of rem ?k] wfe by (simp add: wf_key_def)
  have "good P (NestedEntry (entry_key e) (nested e @ [n]))"
    using g n s sub r d by (auto simp: good_iff [of P e] disjoint_keys_snoc)
  moreover have "\<forall>m\<in>set (nested e @ [n]). colors (entry_key m) \<inter> colors (without rem ?k) = {}"
    using d by auto
  ultimately show ?thesis using r lt by (auto simp: loop_inv_def)
qed

lemma populate_good_aux:
  assumes pool: "\<forall>k\<in>set keys. wf_key k" and perm: "set (ord keys) = set keys"
  shows "(\<forall>e e'. populate fuel ord keys e = Some e' \<longrightarrow> wf_key (entry_key e) \<longrightarrow> nested e = [] \<longrightarrow>
            good (set keys) e' \<and> entry_key e' = entry_key e) \<and>
         (\<forall>e rem s f e'. populate_loop fuel ord keys e rem s f = Some e' \<longrightarrow>
            loop_inv (set keys) e rem s f \<longrightarrow> good (set keys) e' \<and> entry_key e' = entry_key e)"
proof (induction fuel)
  case 0
  show ?case by simp
next
  case (Suc fuel)
  let ?P = "set keys"
  from Suc have IH1: "\<And>e e'. populate fuel ord keys e = Some e' \<Longrightarrow> wf_key (entry_key e) \<Longrightarrow>
      nested e = [] \<Longrightarrow> good ?P e' \<and> entry_key e' = entry_key e"
    and IH2: "\<And>e rem s f e'. populate_loop fuel ord keys e rem s f = Some e' \<Longrightarrow>
      loop_inv ?P e rem s f \<Longrightarrow> good ?P e' \<and> entry_key e' = entry_key e"
    by blast+
  have p1: "good ?P e' \<and> entry_key e' = entry_key e"
    if "populate (Suc fuel) ord keys e = Some e'" "wf_key (entry_key e)" "nested e = []" for e e'
    using that IH2 [of e "entry_key e" "size_k (entry_key e) - 1" True e'] loop_inv_init [of e ?P]
    by simp
  have p2: "good ?P e' \<and> entry_key e' = entry_key e"
    if run: "populate_loop (Suc fuel) ord keys e rem s f = Some e'"
      and inv: "loop_inv ?P e rem s f" for e rem s f e'
  proof (cases "2 < size_k rem \<and> f")
    case False
    with run inv show ?thesis by (auto simp: loop_inv_def)
  next
    case True
    let ?q = "\<lambda>key. populate fuel ord keys (NestedEntry key [])"
    from run True obtain e1 lk f1 where
      pr: "populateRemaining ?q ord keys e rem s = Some (e1, lk, f1)"
      and rest: "populate_loop fuel ord keys e1 (without rem lk) (size_k (without rem lk)) f1 = Some e'"
      by (auto split: option.splits)
    from populateRemaining_cases [OF pr] show ?thesis
    proof (elim disjE conjE exE)
      assume "\<not> f1" "e1 = e" "lk = emptyKey"
      with rest IH2 [of e "without rem emptyKey" _ False e'] loop_inv_not_found [OF inv]
      show ?thesis by simp
    next
      fix n k
      assume f1: f1 and e1: "e1 = NestedEntry (entry_key e) (nested e @ [n])"
        and lk: "lk = entry_key n" and k: "k \<in> set (ord keys)" "2 < size_k k" "size_k k \<le> s"
        "contains rem k" and q: "populate fuel ord keys (NestedEntry k []) = Some n"
      from k perm pool have wfk: "wf_key k" and kP: "k \<in> ?P" by auto
      from IH1 [OF q] wfk have gn: "good ?P n" and kn: "entry_key n = k" by simp_all
      from inv True have inv': "loop_inv ?P e rem s True" by simp
      have "loop_inv ?P e1 (without rem lk) (size_k (without rem lk)) True"
        unfolding e1 lk using loop_inv_found [OF inv' gn] kP wfk k kn by simp
      with rest f1 IH2 [of e1 "without rem lk" "size_k (without rem lk)" True e']
      show ?thesis by (simp add: e1)
    qed
  qed
  from p1 p2 show ?case by blast
qed

lemma populate_good:
  assumes "\<forall>k\<in>set keys. wf_key k" "set (ord keys) = set keys" "wf_key k"
    and "populate fuel ord keys (NestedEntry k []) = Some e"
  shows "good (set keys) e \<and> entry_key e = k"
proof -
  note aux = populate_good_aux [of keys ord fuel]
  from aux assms(1,2) have
    "populate fuel ord keys (NestedEntry k []) = Some e \<longrightarrow> wf_key (entry_key (NestedEntry k [])) \<longrightarrow>
       nested (NestedEntry k []) = [] \<longrightarrow> good (set keys) e \<and> entry_key e = entry_key (NestedEntry k [])"
    by blast
  with assms(3,4) show ?thesis by simp
qed

section \<open>Enough fuel: the packer returns\<close>

lemma size_without_contained:
  assumes "wf_key rem" "wf_key k" "contains rem k"
  shows "size_k (without rem k) = size_k rem - size_k k"
proof -
  from assms have "colors rem \<inter> colors k = colors k" by (auto simp: contains_iff)
  with size_without [OF assms(1), of k] assms(2) show ?thesis by (simp add: wf_key_def)
qed

lemma size_le_contained:
  assumes "wf_key rem" "wf_key k" "contains rem k"
  shows "size_k k \<le> size_k rem"
proof -
  from assms have "card (colors k) \<le> card (colors rem)"
    by (intro card_mono) (simp_all add: contains_iff)
  with assms show ?thesis by (simp add: wf_key_def)
qed

lemma populate_Some_aux:
  assumes pool: "\<forall>k\<in>set keys. wf_key k" and perm: "set (ord keys) = set keys"
  shows "(\<forall>e. 2 * size_k (entry_key e) + 2 \<le> int fuel \<longrightarrow> wf_key (entry_key e) \<longrightarrow>
            populate fuel ord keys e \<noteq> None) \<and>
         (\<forall>e rem s f. 1 \<le> fuel \<longrightarrow> (f \<longrightarrow> 2 * s + 3 \<le> int fuel \<and> 2 * size_k rem + 1 \<le> int fuel) \<longrightarrow>
            wf_key rem \<longrightarrow> populate_loop fuel ord keys e rem s f \<noteq> None)"
proof (induction fuel)
  case 0
  show ?case by (auto simp: wf_key_def)
next
  case (Suc fuel)
  from Suc have IH1: "\<And>e. 2 * size_k (entry_key e) + 2 \<le> int fuel \<Longrightarrow> wf_key (entry_key e) \<Longrightarrow>
      populate fuel ord keys e \<noteq> None"
    and IH2: "\<And>e rem s f. 1 \<le> fuel \<Longrightarrow> (f \<Longrightarrow> 2 * s + 3 \<le> int fuel \<and> 2 * size_k rem + 1 \<le> int fuel) \<Longrightarrow>
      wf_key rem \<Longrightarrow> populate_loop fuel ord keys e rem s f \<noteq> None"
    by blast+
  have p1: "populate (Suc fuel) ord keys e \<noteq> None"
    if "2 * size_k (entry_key e) + 2 \<le> int (Suc fuel)" "wf_key (entry_key e)" for e
  proof -
    from that have "0 \<le> size_k (entry_key e)" by (simp add: wf_key_def)
    with that have "1 \<le> fuel" by simp
    with that IH2 [of True "size_k (entry_key e) - 1" "entry_key e" e] show ?thesis by simp
  qed
  have p2: "populate_loop (Suc fuel) ord keys e rem s f \<noteq> None"
    if b: "f \<Longrightarrow> 2 * s + 3 \<le> int (Suc fuel) \<and> 2 * size_k rem + 1 \<le> int (Suc fuel)"
      and wf: "wf_key rem" for e rem s f
  proof (cases "2 < size_k rem \<and> f")
    case False
    then show ?thesis by auto
  next
    case True
    let ?q = "\<lambda>key. populate fuel ord keys (NestedEntry key [])"
    from True b have bs: "2 * s + 2 \<le> int fuel" and br: "2 * size_k rem \<le> int fuel" by simp_all
    from br True have f1: "1 \<le> fuel" by simp
    have "\<forall>k\<in>set (ord keys). 2 < size_k k \<and> size_k k \<le> s \<and> contains rem k \<longrightarrow> ?q k \<noteq> None"
    proof (intro ballI impI)
      fix k assume "k \<in> set (ord keys)" and "2 < size_k k \<and> size_k k \<le> s \<and> contains rem k"
      with bs pool perm show "?q k \<noteq> None" by (intro IH1) auto
    qed
    from populateRemaining_Some [of ord keys s rem ?q e] this
    obtain e1 lk f1 where pr: "populateRemaining ?q ord keys e rem s = Some (e1, lk, f1)"
      by (cases "populateRemaining ?q ord keys e rem s") auto
    have "populate_loop fuel ord keys e1 (without rem lk) (size_k (without rem lk)) f1 \<noteq> None"
    proof (cases f1)
      case False
      then show ?thesis using f1 by (intro IH2) simp_all
    next
      case True
      with populateRemaining_cases [OF pr] obtain n k where
        lk: "lk = entry_key n" and k: "k \<in> set (ord keys)" "2 < size_k k" "contains rem k"
        and q: "populate fuel ord keys (NestedEntry k []) = Some n"
        by auto
      from k pool perm have wfk: "wf_key k" by auto
      from populate_good [OF pool perm wfk q] lk have "lk = k" by simp
      with size_without_contained [OF wf wfk k(3)] k(2)
      have "size_k (without rem lk) \<le> size_k rem - 3" by simp
      with br show ?thesis using f1 by (intro IH2) simp_all
    qed
    with pr \<open>2 < size_k rem \<and> f\<close> show ?thesis by simp
  qed
  from p1 p2 show ?case by blast
qed

lemma populate_Some:
  assumes "\<forall>k\<in>set keys. wf_key k" "set (ord keys) = set keys" "wf_key k"
    and "2 * size_k k + 2 \<le> int fuel"
  shows "\<exists>e. populate fuel ord keys (NestedEntry k []) = Some e"
proof -
  note aux = populate_Some_aux [of keys ord fuel]
  from aux assms(1,2) have
    "2 * size_k (entry_key (NestedEntry k [])) + 2 \<le> int fuel \<longrightarrow>
       wf_key (entry_key (NestedEntry k [])) \<longrightarrow> populate fuel ord keys (NestedEntry k []) \<noteq> None"
    by blast
  with assms(3,4) show ?thesis by simp
qed

section \<open>What extractBuffer returns and marks\<close>

lemma fold_joined_first:
  "fold (\<lambda>color (result, addedColors). (result @ [color], useColor addedColors color)) src (r, a)
     = (r @ src, fold (\<lambda>c k. useColor k c) src a)"
  by (induction src arbitrary: r a) auto

lemma joinedBuffer_eq:
  "joinedBuffer k src = src @ filter (\<lambda>c. hasColor k c \<and> c \<notin> set src) all_bytes"
proof -
  let ?a = "fold (\<lambda>c k. useColor k c) src emptyKey"
  have a: "hasColor ?a c = (c \<in> set src)" for c
    using colors_fold_useColor [of src emptyKey] by (simp add: mem_colors [symmetric])
  have "joinedBuffer k src =
      fold (\<lambda>color result. if hasColor k (of_nat color) \<and> \<not> hasColor ?a (of_nat color)
                             then result @ [of_nat color] else result) [0..<256] src"
    by (simp add: joinedBuffer_def fold_joined_first)
  also have "\<dots> = fold (\<lambda>c r. r @ [c]) (filter (\<lambda>c. hasColor k c \<and> \<not> hasColor ?a c) all_bytes) src"
    unfolding all_bytes_def
    by (rule fold_cond [where g = "\<lambda>r c. r @ [c]" and P = "\<lambda>c. hasColor k c \<and> \<not> hasColor ?a c"])
  finally show ?thesis by (simp add: fold_snoc a)
qed

lemma set_joinedBuffer: "set (joinedBuffer k src) = set src \<union> colors k"
  by (auto simp: joinedBuffer_eq mem_colors)

lemma distinct_joinedBuffer: "distinct src \<Longrightarrow> distinct (joinedBuffer k src)"
  by (auto simp: joinedBuffer_eq)

lemma extract_fold:
  assumes "\<And>n off s. n \<in> set ns \<Longrightarrow>
     extractBuffer n off marker s = (ebytes n, fold (\<lambda>(k, p). marker k p) (marks n off) s)"
  shows "fold (\<lambda>n (nestedBuffer, relativeOffset, s).
                 (case extractBuffer n (startOffset + relativeOffset) marker s of
                    (bufferPart, s') \<Rightarrow>
                      (nestedBuffer @ bufferPart, relativeOffset + size_k (entry_key n), s')))
              ns (nb, rel, s0)
         = (nb @ concat (map ebytes ns), rel + sum_list (map (\<lambda>n. size_k (entry_key n)) ns),
            fold (\<lambda>(k, p). marker k p) (marks_list ns (startOffset + rel)) s0)"
  using assms
proof (induction ns arbitrary: nb rel s0)
  case Nil
  show ?case by simp
next
  case (Cons n ns)
  have "extractBuffer n (startOffset + rel) marker s0 =
          (ebytes n, fold (\<lambda>(k, p). marker k p) (marks n (startOffset + rel)) s0)"
    by (rule Cons.prems) simp
  moreover note Cons.IH [of "nb @ ebytes n" "rel + size_k (entry_key n)"
      "fold (\<lambda>(k, p). marker k p) (marks n (startOffset + rel)) s0"]
  ultimately show ?case using Cons.prems by (simp add: add.assoc)
qed

lemma extractBuffer_eq:
  "extractBuffer e off marker s = (ebytes e, fold (\<lambda>(k, p). marker k p) (marks e off) s)"
proof (induction e arbitrary: off s)
  case (NestedEntry k ns)
  show ?case
    using extract_fold [of ns marker off "[]" 0 "marker k off s"] NestedEntry
    by simp
qed

lemma slice_prefix: "go_slice xs lo hi = Some w \<Longrightarrow> go_slice (xs @ ys) lo hi = Some w"
  by (auto simp: go_slice_def split: if_splits)

lemma slice_shift:
  "go_slice ys lo hi = Some w \<Longrightarrow> go_slice (xs @ ys) (lo + int (length xs)) (hi + int (length xs)) = Some w"
  by (auto simp: go_slice_def nat_add_distrib split: if_splits)

lemma slice_all: "hi = int (length xs) \<Longrightarrow> go_slice xs 0 hi = Some xs"
  by (simp add: go_slice_def)

lemma placed_prefix:
  assumes "placed xs k off"
  shows "placed (xs @ ys) k off"
proof -
  from assms obtain w where w: "go_slice xs off (off + size_k k) = Some w"
    "distinct w" "set w = colors k"
    by (auto simp: placed_def split: option.splits)
  from slice_prefix [OF w(1), of ys] w show ?thesis by (simp add: placed_def)
qed

lemma placed_shift:
  assumes "placed ys k (off - int (length xs))"
  shows "placed (xs @ ys) k off"
proof -
  from assms obtain w where w: "go_slice ys (off - int (length xs)) (off - int (length xs) + size_k k) = Some w"
    "distinct w" "set w = colors k"
    by (auto simp: placed_def split: option.splits)
  from slice_shift [OF w(1), of xs] have "go_slice (xs @ ys) off (off + size_k k) = Some w"
    by (simp add: algebra_simps)
  with w show ?thesis by (simp add: placed_def)
qed

lemma concat_ebytes:
  assumes "disjoint_keys ns"
    and "\<forall>n\<in>set ns. distinct (ebytes n) \<and> set (ebytes n) = colors (entry_key n)"
  shows "distinct (concat (map ebytes ns)) \<and>
         set (concat (map ebytes ns)) = (\<Union>n\<in>set ns. colors (entry_key n))"
  using assms by (induction ns) auto

lemma good_ebytes:
  "good P e \<Longrightarrow> distinct (ebytes e) \<and> set (ebytes e) = colors (entry_key e)"
proof (induction e)
  case (NestedEntry k ns)
  from NestedEntry have "\<forall>n\<in>set ns. distinct (ebytes n) \<and> set (ebytes n) = colors (entry_key n)"
    by auto
  with NestedEntry.prems concat_ebytes [of ns]
  have c: "distinct (concat (map ebytes ns))"
    "set (concat (map ebytes ns)) = (\<Union>n\<in>set ns. colors (entry_key n))" by simp_all
  from NestedEntry.prems have "(\<Union>n\<in>set ns. colors (entry_key n)) \<subseteq> colors k" by auto
  with c show ?case by (auto simp: set_joinedBuffer distinct_joinedBuffer)
qed

lemma good_wf: "good P e \<Longrightarrow> wf_key (entry_key e)"
  by (cases e) simp

lemma good_length: "good P e \<Longrightarrow> int (length (ebytes e)) = size_k (entry_key e)"
proof -
  assume g: "good P e"
  with good_ebytes [OF g] have "length (ebytes e) = card (colors (entry_key e))"
    using distinct_card [of "ebytes e"] by simp
  with good_wf [OF g] show ?thesis by (simp add: wf_key_def)
qed

lemma good_placed_self: "good P e \<Longrightarrow> placed (ebytes e) (entry_key e) 0"
  using good_ebytes [of P e] good_length [of P e]
  by (simp add: placed_def slice_all)

lemma marks_placed_aux:
  "good P e \<longrightarrow> (k, p) \<in> set (marks e off) \<longrightarrow> placed (ebytes e) k (p - off)"
  "(\<forall>n\<in>set ns. good P n) \<longrightarrow> (k, p) \<in> set (marks_list ns off) \<longrightarrow>
      placed (concat (map ebytes ns)) k (p - off)"
proof (induction e off and ns off rule: marks_marks_list.induct)
  case (1 k' ns off)
  show ?case
  proof (intro impI)
    assume g: "good P (NestedEntry k' ns)" and m: "(k, p) \<in> set (marks (NestedEntry k' ns) off)"
    show "placed (ebytes (NestedEntry k' ns)) k (p - off)"
    proof (cases "(k, p) = (k', off)")
      case True
      with good_placed_self [OF g] show ?thesis by simp
    next
      case False
      with m g 1 have "placed (concat (map ebytes ns)) k (p - off)" by auto
      then show ?thesis by (simp add: joinedBuffer_eq placed_prefix)
    qed
  qed
next
  case (2 off)
  show ?case by simp
next
  case (3 n ns off)
  show ?case
  proof (intro impI)
    assume g: "\<forall>m\<in>set (n # ns). good P m" and m: "(k, p) \<in> set (marks_list (n # ns) off)"
    from m consider "(k, p) \<in> set (marks n off)"
      | "(k, p) \<in> set (marks_list ns (off + size_k (entry_key n)))" by auto
    then show "placed (concat (map ebytes (n # ns))) k (p - off)"
    proof cases
      case 1
      with 3 g have "placed (ebytes n) k (p - off)" by simp
      then show ?thesis by (simp add: placed_prefix)
    next
      case 2
      with 3 g have "placed (concat (map ebytes ns)) k (p - (off + size_k (entry_key n)))" by simp
      moreover from g have "int (length (ebytes n)) = size_k (entry_key n)"
        by (intro good_length [of P]) simp
      ultimately have "placed (ebytes n @ concat (map ebytes ns)) k (p - off)"
        by (intro placed_shift) (simp add: algebra_simps)
      then show ?thesis by simp
    qed
  qed
qed

lemma marks_placed:
  "good P e \<Longrightarrow> (k, p) \<in> set (marks e off) \<Longrightarrow> placed (ebytes e) k (p - off)"
  using marks_placed_aux(1) [of P e k p off] by simp

lemma marks_keys_aux:
  "good P e \<longrightarrow> (k, p) \<in> set (marks e off) \<longrightarrow>
      k = entry_key e \<or> (k \<in> P \<and> size_k k < size_k (entry_key e))"
  "\<forall>b. (\<forall>n\<in>set ns. good P n \<and> entry_key n \<in> P \<and> size_k (entry_key n) < b) \<longrightarrow>
      (k, p) \<in> set (marks_list ns off) \<longrightarrow> k \<in> P \<and> size_k k < b"
proof (induction e off and ns off rule: marks_marks_list.induct)
  case (1 k' ns off)
  then show ?case by auto
next
  case (2 off)
  show ?case by simp
next
  case (3 n ns off)
  show ?case
  proof (intro allI impI)
    fix b
    assume a: "\<forall>m\<in>set (n # ns). good P m \<and> entry_key m \<in> P \<and> size_k (entry_key m) < b"
      and m: "(k, p) \<in> set (marks_list (n # ns) off)"
    from m consider "(k, p) \<in> set (marks n off)"
      | "(k, p) \<in> set (marks_list ns (off + size_k (entry_key n)))" by auto
    then show "k \<in> P \<and> size_k k < b"
    proof cases
      case 1
      with 3(1) a have "k = entry_key n \<or> (k \<in> P \<and> size_k k < size_k (entry_key n))" by simp
      with a show ?thesis by auto
    next
      case 2
      from a have "\<forall>m\<in>set ns. good P m \<and> entry_key m \<in> P \<and> size_k (entry_key m) < b" by simp
      with 3(2) [rule_format, of b] 2 show ?thesis by blast
    qed
  qed
qed

lemma marks_keys:
  "good P e \<Longrightarrow> (k, p) \<in> set (marks e off) \<Longrightarrow>
     k = entry_key e \<or> (k \<in> P \<and> size_k k < size_k (entry_key e))"
  using marks_keys_aux(1) [of P e k p off] by simp

lemma marks_root: "(entry_key e, off) \<in> set (marks e off)"
  by (cases e) simp

section \<open>The invariant of Generate\<close>

lemma set_fold_set_delete [simp]: "set (fold set_delete ks m) = set m - set ks"
  by (induction ks arbitrary: m) (auto simp: set_delete_def)

lemma distinct_fold_set_delete [simp]: "distinct m \<Longrightarrow> distinct (fold set_delete ks m)"
  by (induction ks arbitrary: m) (auto simp: set_delete_def distinct_removeAll)

lemma set_fold_set_insert [simp]: "set (fold set_insert ks m) = set m \<union> set ks"
  by (induction ks arbitrary: m) (auto simp: set_insert_def)

lemma distinct_fold_set_insert [simp]: "distinct m \<Longrightarrow> distinct (fold set_insert ks m)"
  by (induction ks arbitrary: m) (auto simp: set_insert_def)

lemma wf_size_nonneg: "wf_key k \<Longrightarrow> 0 \<le> size_k k"
  by (simp add: wf_key_def)

lemma sum_size_Diff:
  assumes "finite A" "\<forall>k\<in>A. wf_key k"
  shows "(\<Sum>k\<in>A - B. size_k k) \<le> (\<Sum>k\<in>A. size_k k)"
  using assms by (intro sum_mono2) (auto simp: wf_size_nonneg)

lemma sum_size_Diff_mem:
  assumes "finite A" "\<forall>k\<in>A. wf_key k" "r \<in> A" "r \<in> B"
  shows "(\<Sum>k\<in>A - B. size_k k) + size_k r \<le> (\<Sum>k\<in>A. size_k k)"
proof -
  have "(\<Sum>k\<in>A - B. size_k k) \<le> (\<Sum>k\<in>A - {r}. size_k k)"
    using assms by (intro sum_mono2) (auto simp: wf_size_nonneg)
  moreover have "(\<Sum>k\<in>A. size_k k) = size_k r + (\<Sum>k\<in>A - {r}. size_k k)"
    using assms by (simp add: sum.remove)
  ultimately show ?thesis by simp
qed

lemma window_pigeonhole:
  assumes "length w = card A" "A \<subseteq> set w"
  shows "distinct w \<and> set w = A"
proof -
  have "card (set w) \<le> length w" by (rule card_length)
  moreover have "card A \<le> card (set w)" using assms(2) by (intro card_mono) simp_all
  ultimately have c: "card (set w) = length w" "card A = card (set w)" using assms(1) by simp_all
  from c(2) assms(2) have "set w = A" by (metis List.finite_set card_subset_eq)
  with c(1) show ?thesis by (simp add: card_distinct)
qed

lemma scavenge_hit:
  assumes "go_slice buf start (start + size_k key) = Some w" "wf_key key"
    and "contains (fold (\<lambda>color tempKey. useColor tempKey color) w emptyKey) key"
  shows "placed buf key start"
proof -
  from assms(1) have "length w = nat (size_k key)"
    by (auto simp: go_slice_def split: if_splits)
  with assms(2) have "length w = card (colors key)" by (simp add: wf_key_def)
  moreover from assms(3) have "colors key \<subseteq> set w" by (simp add: contains_iff)
  ultimately have "distinct w \<and> set w = colors key" by (rule window_pigeonhole)
  with assms(1) show ?thesis by (simp add: placed_def)
qed

lemma scavenge_loop_result:
  assumes "wf_key key" "0 \<le> start"
  shows "\<exists>wr' er' sts'. scavenge_loop buf key start (wr, er, sts) = Some (wr', er', sts') \<and>
           ((er' = er \<and> sts' = sts) \<or>
            (\<exists>p. er' = er @ [key] \<and> sts' = sts(key \<mapsto> p) \<and> placed buf key p))"
  using assms
proof (induction buf key start "(wr, er, sts)" arbitrary: wr er sts rule: scavenge_loop.induct)
  case (1 buf key start wr er sts)
  show ?case
  proof (cases "start < int (length buf) - size_k key \<and> \<not> wr")
    case False
    then show ?thesis by auto
  next
    case True
    with "1.prems" wf_size_nonneg [of key]
    obtain w where w: "go_slice buf start (start + size_k key) = Some w"
      by (auto simp: go_slice_def)
    let ?hit = "contains (fold (\<lambda>color tempKey. useColor tempKey color) w emptyKey) key"
    show ?thesis
    proof (cases ?hit)
      case hit: True
      have p: "placed buf key start" using w "1.prems"(1) hit by (rule scavenge_hit)
      have "scavenge_loop buf key start (wr, er, sts) =
            scavenge_loop buf key (start + 1) (True, er @ [key], sts(key \<mapsto> start))"
        using True w hit by simp
      also have "\<dots> = Some (True, er @ [key], sts(key \<mapsto> start))" by simp
      finally show ?thesis using p by blast
    next
      case miss: False
      have "scavenge_loop buf key start (wr, er, sts) =
            scavenge_loop buf key (start + 1) (wr, er, sts)"
        using True w miss by simp
      moreover have "\<exists>wr' er' sts'. scavenge_loop buf key (start + 1) (wr, er, sts) = Some (wr', er', sts') \<and>
           ((er' = er \<and> sts' = sts) \<or>
            (\<exists>p. er' = er @ [key] \<and> sts' = sts(key \<mapsto> p) \<and> placed buf key p))"
        using True w miss "1.prems" by (intro "1.hyps") auto
      ultimately show ?thesis by simp
    qed
  qed
qed

lemma scavenge_fold:
  assumes wf: "\<forall>k\<in>set ks. wf_key k"
    and S: "\<forall>k p. sts k = Some p \<longrightarrow> placed buf k p"
      "\<forall>k\<in>R. k \<in> A - set er \<or> sts k \<noteq> None"
  shows "\<exists>er' sts'.
      foldM (\<lambda>key (earlyRemoved, sts).
               if size_k key = sz
               then (case scavenge_loop buf key 0 (False, earlyRemoved, sts) of
                       None \<Rightarrow> None
                     | Some (wasRemoved, earlyRemoved', sts') \<Rightarrow> Some (earlyRemoved', sts'))
               else Some (earlyRemoved, sts))
            ks (er, sts) = Some (er', sts') \<and>
      (\<forall>k p. sts' k = Some p \<longrightarrow> placed buf k p) \<and>
      (\<forall>k\<in>R. k \<in> A - set er' \<or> sts' k \<noteq> None)"
  using assms
proof (induction ks arbitrary: er sts)
  case Nil
  then show ?case by simp
next
  case (Cons key ks)
  show ?case
  proof (cases "size_k key = sz")
    case False
    with Cons.IH [of sts er] Cons.prems show ?thesis by simp
  next
    case True
    from Cons.prems have "wf_key key" by simp
    from scavenge_loop_result [OF this, of 0 buf False er sts]
    obtain wr1 er1 sts1 where
      l: "scavenge_loop buf key 0 (False, er, sts) = Some (wr1, er1, sts1)"
      and r: "(er1 = er \<and> sts1 = sts) \<or>
              (\<exists>p. er1 = er @ [key] \<and> sts1 = sts(key \<mapsto> p) \<and> placed buf key p)"
      by auto
    from r Cons.prems have "\<forall>k p. sts1 k = Some p \<longrightarrow> placed buf k p"
      and "\<forall>k\<in>R. k \<in> A - set er1 \<or> sts1 k \<noteq> None"
      by (auto split: if_splits)
    with Cons.IH [of sts1 er1] Cons.prems(1) True l show ?thesis by simp
  qed
qed

lemma scavenge_inv:
  assumes inv: "gen_inv R tot st" and wf: "\<forall>k\<in>R. wf_key k"
    and perm: "set (ord (snd st)) = set (snd st)"
  shows "\<exists>st'. scavenge ord sz st = Some st' \<and> gen_inv R tot st' \<and> set (snd st') \<subseteq> set (snd st)"
proof -
  obtain lookup remainder where st: "st = (lookup, remainder)" by (cases st)
  from inv st have d: "distinct remainder" and sub: "set remainder \<subseteq> R"
    and pl: "\<forall>k p. starts lookup k = Some p \<longrightarrow> placed (buffer lookup) k p"
    and cov: "\<forall>k\<in>R. k \<in> set remainder \<or> starts lookup k \<noteq> None"
    and len: "int (length (buffer lookup)) + (\<Sum>k\<in>set remainder. size_k k) \<le> tot"
    by (simp_all add: gen_inv_def)
  from perm st sub wf have wfo: "\<forall>k\<in>set (ord remainder). wf_key k" by auto
  from cov have cov': "\<forall>k\<in>R. k \<in> set remainder - set [] \<or> starts lookup k \<noteq> None" by simp
  from scavenge_fold [OF wfo pl cov', of sz]
  obtain er' sts' where
    f: "foldM (\<lambda>key (earlyRemoved, sts).
               if size_k key = sz
               then (case scavenge_loop (buffer lookup) key 0 (False, earlyRemoved, sts) of
                       None \<Rightarrow> None
                     | Some (wasRemoved, earlyRemoved', sts') \<Rightarrow> Some (earlyRemoved', sts'))
               else Some (earlyRemoved, sts))
            (ord remainder) ([], starts lookup) = Some (er', sts')"
    and pl': "\<forall>k p. sts' k = Some p \<longrightarrow> placed (buffer lookup) k p"
    and cov'': "\<forall>k\<in>R. k \<in> set remainder - set er' \<or> sts' k \<noteq> None"
    by blast
  let ?st' = "(lookup\<lparr>starts := sts'\<rparr>, fold set_delete er' remainder)"
  have r: "scavenge ord sz st = Some ?st'" using f by (simp add: scavenge_def st)
  have "(\<Sum>k\<in>set remainder - set er'. size_k k) \<le> (\<Sum>k\<in>set remainder. size_k k)"
    using sub wf by (intro sum_size_Diff) auto
  with len d sub pl' cov'' have "gen_inv R tot ?st'"
    by (auto simp: gen_inv_def)
  with r st show ?thesis by auto
qed

lemma marker_fold:
  "fold (\<lambda>(k, p). \<lambda>(toRemove, sts). (toRemove @ [k], sts(k \<mapsto> p))) ms (tr, sts)
     = (tr @ map fst ms, fold (\<lambda>(k, p) sts. sts(k \<mapsto> p)) ms sts)"
  by (induction ms arbitrary: tr sts) auto

lemma fold_upd_Some:
  "fold (\<lambda>(k, p) sts. sts(k \<mapsto> p)) ms sts k = Some p \<Longrightarrow> (k, p) \<in> set ms \<or> sts k = Some p"
proof (induction ms arbitrary: sts)
  case Nil
  then show ?case by simp
next
  case (Cons m ms)
  obtain a b where m: "m = (a, b)" by (cases m)
  from Cons.prems m have "fold (\<lambda>(k, p) sts. sts(k \<mapsto> p)) ms (sts(a \<mapsto> b)) k = Some p"
    by (simp del: fun_upd_apply)
  from Cons.IH [OF this] m show ?case by (auto split: if_splits)
qed

lemma fold_upd_dom:
  "k \<in> fst ` set ms \<or> sts k \<noteq> None \<Longrightarrow> fold (\<lambda>(k, p) sts. sts(k \<mapsto> p)) ms sts k \<noteq> None"
proof (induction ms arbitrary: sts)
  case Nil
  then show ?case by simp
next
  case (Cons m ms)
  obtain a b where m: "m = (a, b)" by (cases m)
  from Cons.prems m have "k \<in> fst ` set ms \<or> (sts(a \<mapsto> b)) k \<noteq> None" by auto
  with Cons.IH [of "sts(a \<mapsto> b)"] m show ?case by (simp del: fun_upd_apply)
qed

lemma pack_key_inv:
  assumes inv: "gen_inv R tot (lookup, remainder)" and wf: "\<forall>k\<in>R. wf_key k"
    and perm: "set (ord remainder) = set remainder"
    and key: "key \<in> set remainder" and fuel: "2 * size_k key + 2 \<le> int fuel"
  shows "\<exists>lookup' remainder'.
           pack_key fuel ord key (lookup, remainder) = Some (lookup', remainder') \<and>
           gen_inv R tot (lookup', remainder') \<and> key \<notin> set remainder' \<and>
           set remainder' \<subseteq> set remainder \<and>
           (\<forall>k\<in>set remainder. k \<notin> set remainder' \<longrightarrow> k = key \<or> size_k k < size_k key)"
proof -
  from inv have d: "distinct remainder" and sub: "set remainder \<subseteq> R"
    and pl: "\<forall>k p. starts lookup k = Some p \<longrightarrow> placed (buffer lookup) k p"
    and cov: "\<forall>k\<in>R. k \<in> set remainder \<or> starts lookup k \<noteq> None"
    and len: "int (length (buffer lookup)) + (\<Sum>k\<in>set remainder. size_k k) \<le> tot"
    by (simp_all add: gen_inv_def)
  from sub wf have pool: "\<forall>k\<in>set remainder. wf_key k" by auto
  with key have wfk: "wf_key key" by simp
  from populate_Some [where ord = ord, OF pool perm wfk fuel]
  obtain root where root: "populate fuel ord remainder (NestedEntry key []) = Some root" by blast
  from populate_good [where ord = ord, OF pool perm wfk root]
  have g: "good (set remainder) root" and rk: "entry_key root = key" by simp_all
  let ?off = "int (length (buffer lookup))"
  let ?ms = "marks root ?off"
  let ?sts = "fold (\<lambda>(k, p) sts. sts(k \<mapsto> p)) ?ms (starts lookup)"
  let ?lookup' = "\<lparr>buffer = buffer lookup @ ebytes root, starts = ?sts\<rparr>"
  let ?rem' = "fold set_delete (map fst ?ms) remainder"
  have r: "pack_key fuel ord key (lookup, remainder) = Some (?lookup', ?rem')"
    by (simp add: pack_key_def root extractBuffer_eq marker_fold)
  have km: "key \<in> fst ` set ?ms" using marks_root [of root ?off] rk by force
  have p': "placed (buffer ?lookup') k p" if "?sts k = Some p" for k p
  proof -
    from fold_upd_Some [OF that] show ?thesis
    proof
      assume "(k, p) \<in> set ?ms"
      from marks_placed [OF g this] show ?thesis by (simp add: placed_shift)
    next
      assume "starts lookup k = Some p"
      with pl show ?thesis by (simp add: placed_prefix)
    qed
  qed
  have c': "k \<in> set ?rem' \<or> ?sts k \<noteq> None" if "k \<in> R" for k
  proof (cases "k \<in> set ?rem'")
    case False
    with cov that have "k \<in> fst ` set ?ms \<or> starts lookup k \<noteq> None" by auto
    then have "?sts k \<noteq> None" by (rule fold_upd_dom)
    then show ?thesis by simp
  qed simp
  have "(\<Sum>k\<in>set remainder - fst ` set ?ms. size_k k) + size_k key \<le> (\<Sum>k\<in>set remainder. size_k k)"
    using pool key km by (intro sum_size_Diff_mem) auto
  with len good_length [OF g] rk
  have l': "int (length (buffer ?lookup')) + (\<Sum>k\<in>set ?rem'. size_k k) \<le> tot" by simp
  have inv': "gen_inv R tot (?lookup', ?rem')"
    unfolding gen_inv_def using d sub p' c' l' by (simp del: set_map) blast
  have "k = key \<or> size_k k < size_k key" if "k \<in> set remainder" "k \<notin> set ?rem'" for k
  proof -
    from that obtain p where "(k, p) \<in> set ?ms" by auto
    from marks_keys [OF g this] rk show ?thesis by auto
  qed
  with r inv' km show ?thesis by (intro exI [of _ ?lookup'] exI [of _ ?rem']) auto
qed

lemma pack_keys_inv:
  assumes wf: "\<forall>k\<in>R. wf_key k" and perm: "\<And>xs. set (ord xs) = set xs"
    and fuel: "\<forall>k\<in>R. 2 * size_k k + 2 \<le> int fuel"
  shows "gen_inv R tot st \<Longrightarrow> distinct ks \<Longrightarrow> set ks \<subseteq> set (snd st) \<Longrightarrow>
         \<forall>k\<in>set ks. size_k k = sz \<Longrightarrow>
         \<exists>st'. foldM (pack_key fuel ord) ks st = Some st' \<and> gen_inv R tot st' \<and>
               set (snd st') \<subseteq> set (snd st) - set ks"
proof (induction ks arbitrary: st)
  case Nil
  then show ?case by simp
next
  case (Cons key ks)
  obtain lookup remainder where st: "st = (lookup, remainder)" by (cases st)
  from Cons.prems st have inv: "gen_inv R tot (lookup, remainder)"
    and key: "key \<in> set remainder" by simp_all
  from inv have "set remainder \<subseteq> R" by (simp add: gen_inv_def)
  with key fuel have f: "2 * size_k key + 2 \<le> int fuel" by auto
  from pack_key_inv [where ord = ord, OF inv wf perm key f]
  obtain lookup' remainder' where
    r: "pack_key fuel ord key (lookup, remainder) = Some (lookup', remainder')"
    and inv': "gen_inv R tot (lookup', remainder')" and nk: "key \<notin> set remainder'"
    and sub: "set remainder' \<subseteq> set remainder"
    and gone: "\<forall>k\<in>set remainder. k \<notin> set remainder' \<longrightarrow> k = key \<or> size_k k < size_k key"
    by blast
  have "set ks \<subseteq> set (snd (lookup', remainder'))"
  proof
    fix k assume k: "k \<in> set ks"
    with Cons.prems st have "k \<in> set remainder" "k \<noteq> key" "size_k k = size_k key" by auto
    with gone show "k \<in> set (snd (lookup', remainder'))" by auto
  qed
  with Cons.IH [OF inv'] Cons.prems
  obtain st' where "foldM (pack_key fuel ord) ks (lookup', remainder') = Some st'"
    "gen_inv R tot st'" "set (snd st') \<subseteq> set remainder' - set ks" by auto
  with r nk sub st show ?case by auto
qed

lemma size_pass_inv:
  assumes wf: "\<forall>k\<in>R. wf_key k" and perm: "\<And>xs. mset (ord xs) = mset xs"
    and fuel: "\<forall>k\<in>R. 2 * size_k k + 2 \<le> int fuel" and inv: "gen_inv R tot st"
  shows "\<exists>st'. size_pass fuel ord sz st = Some st' \<and> gen_inv R tot st'"
proof -
  have ps: "set (ord xs) = set xs" for xs using perm [of xs] by (rule mset_eq_setD)
  have pd: "distinct (ord xs) = distinct xs" for xs
    using perm [of xs] by (rule mset_eq_imp_distinct_iff)
  from scavenge_inv [where ord = ord, OF inv wf ps, of sz]
  obtain st1 where s: "scavenge ord sz st = Some st1" and inv1: "gen_inv R tot st1" by blast
  obtain lookup remainder where st1: "st1 = (lookup, remainder)" by (cases st1)
  let ?ks = "filter (\<lambda>key. size_k key = sz) (ord remainder)"
  from inv1 st1 have "distinct remainder" by (simp add: gen_inv_def)
  then have "distinct ?ks" by (simp add: pd)
  moreover have "set ?ks \<subseteq> set (snd st1)" by (auto simp: st1 ps)
  moreover have "\<forall>k\<in>set ?ks. size_k k = sz" by simp
  ultimately obtain st' where "foldM (pack_key fuel ord) ?ks st1 = Some st'" "gen_inv R tot st'"
    using pack_keys_inv [where ord = ord, OF wf ps fuel inv1, of ?ks sz] by blast
  with s st1 show ?thesis by (simp add: size_pass_def)
qed

lemma size_loop_inv:
  assumes "\<forall>k\<in>R. wf_key k" and "\<And>xs. mset (ord xs) = mset xs"
    and "\<forall>k\<in>R. 2 * size_k k + 2 \<le> int fuel" and "gen_inv R tot st"
  shows "\<exists>st'. size_loop fuel ord sz st = Some st' \<and> gen_inv R tot st'"
  using assms
proof (induction fuel ord sz st rule: size_loop.induct)
  case (1 fuel ord sz st)
  show ?case
  proof (cases "2 < sz")
    case False
    with "1.prems" show ?thesis by simp
  next
    case True
    from size_pass_inv [where ord = ord, OF "1.prems", of sz]
    obtain st1 where s: "size_pass fuel ord sz st = Some st1" and i: "gen_inv R tot st1" by blast
    from "1.IH" [OF True s "1.prems"(1,2,3) i] s True show ?thesis by simp
  qed
qed

lemma length_key_buffer: "wf_key k \<Longrightarrow> int (length (key_buffer k)) = size_k k"
  using distinct_card [of "key_buffer k"] by (simp add: wf_key_def)

lemma placed_key_buffer: "wf_key k \<Longrightarrow> placed (key_buffer k) k 0"
  by (simp add: placed_def slice_all length_key_buffer)

lemma place_rest_fold:
  assumes "\<forall>k\<in>set ks. wf_key k" "distinct ks"
    and "\<forall>k p. starts lookup k = Some p \<longrightarrow> placed (buffer lookup) k p"
    and "\<forall>k\<in>R. k \<in> set ks \<or> starts lookup k \<noteq> None"
    and "int (length (buffer lookup)) + (\<Sum>k\<in>set ks. size_k k) \<le> tot"
  shows "(\<forall>k p. starts (fold place_key ks lookup) k = Some p \<longrightarrow>
            placed (buffer (fold place_key ks lookup)) k p) \<and>
         (\<forall>k\<in>R. starts (fold place_key ks lookup) k \<noteq> None) \<and>
         int (length (buffer (fold place_key ks lookup))) \<le> tot"
  using assms
proof (induction ks arbitrary: lookup)
  case Nil
  then show ?case by simp
next
  case (Cons key ks)
  let ?l = "place_key key lookup"
  from Cons.prems have wfk: "wf_key key" by simp
  have "placed (buffer lookup @ key_buffer key) key (int (length (buffer lookup)))"
    using placed_key_buffer [OF wfk] by (intro placed_shift) simp
  with Cons.prems(3) have a: "\<forall>k p. starts ?l k = Some p \<longrightarrow> placed (buffer ?l) k p"
    by (auto simp: placed_prefix place_key_def)
  from Cons.prems(4) have b: "\<forall>k\<in>R. k \<in> set ks \<or> starts ?l k \<noteq> None"
    by (auto simp: place_key_def)
  from Cons.prems(2,5) have c: "int (length (buffer ?l)) + (\<Sum>k\<in>set ks. size_k k) \<le> tot"
    by (simp add: length_key_buffer [OF wfk] place_key_def)
  from Cons.prems(1,2) have "\<forall>k\<in>set ks. wf_key k" "distinct ks" by simp_all
  from Cons.IH [OF this a b c] show ?case by simp
qed

lemma Generate_ok:
  assumes perm: "\<And>xs. mset (ord xs) = mset xs"
    and wf: "\<forall>k\<in>fst ` set (keyUses gen). wf_key k"
    and fuel: "\<forall>k\<in>fst ` set (keyUses gen). 2 * size_k k + 2 \<le> int fuel"
  shows "\<exists>lk. Generate fuel ord gen = Some lk \<and>
           (\<forall>k p. starts lk k = Some p \<longrightarrow> placed (buffer lk) k p) \<and>
           (\<forall>k\<in>fst ` set (keyUses gen). starts lk k \<noteq> None) \<and>
           int (length (buffer lk)) \<le> (\<Sum>k\<in>fst ` set (keyUses gen). size_k k)"
proof -
  let ?R = "fst ` set (keyUses gen)"
  let ?tot = "\<Sum>k\<in>?R. size_k k"
  have ps: "set (ord xs) = set xs" for xs using perm [of xs] by (rule mset_eq_setD)
  have pd: "distinct (ord xs) = distinct xs" for xs
    using perm [of xs] by (rule mset_eq_imp_distinct_iff)
  let ?rem0 = "fold set_insert (ord (map fst (keyUses gen))) []"
  let ?l0 = "\<lparr>buffer = [], starts = Map.empty\<rparr>"
  have s0: "set ?rem0 = ?R" by (simp add: ps)
  have "gen_inv ?R ?tot (?l0, ?rem0)"
    unfolding gen_inv_def by (simp add: s0 del: set_fold_set_insert)
  from size_loop_inv [where ord = ord, OF wf perm fuel this, of PixelPerTile]
  obtain st where sl: "size_loop fuel ord PixelPerTile (?l0, ?rem0) = Some st"
    and inv: "gen_inv ?R ?tot st" by blast
  obtain lookup remainder where st: "st = (lookup, remainder)" by (cases st)
  from inv st have d: "distinct remainder" and sub: "set remainder \<subseteq> ?R"
    and pl: "\<forall>k p. starts lookup k = Some p \<longrightarrow> placed (buffer lookup) k p"
    and cov: "\<forall>k\<in>?R. k \<in> set remainder \<or> starts lookup k \<noteq> None"
    and len: "int (length (buffer lookup)) + (\<Sum>k\<in>set remainder. size_k k) \<le> ?tot"
    by (simp_all add: gen_inv_def)
  have 1: "\<forall>k\<in>set (ord remainder). wf_key k" using sub wf by (auto simp: ps)
  have 2: "distinct (ord remainder)" using d by (simp add: pd)
  have 3: "\<forall>k\<in>?R. k \<in> set (ord remainder) \<or> starts lookup k \<noteq> None" using cov by (simp add: ps)
  have 4: "int (length (buffer lookup)) + (\<Sum>k\<in>set (ord remainder). size_k k) \<le> ?tot"
    using len by (simp add: ps)
  have g: "Generate fuel ord gen = Some (place_rest ord st)"
    using sl by (simp add: Generate_def)
  from place_rest_fold [OF 1 2 pl 3 4] g show ?thesis
    by (simp add: place_rest_def st)
qed

section \<open>Registered keys\<close>

lemma colors_tile_key [simp]: "colors (tile_key t) = set t"
  by (simp add: tile_key_def)

lemma wf_tile_key [simp]: "wf_key (tile_key t)"
  by (simp add: tile_key_def)

lemma size_tile_key: "size_k (tile_key t) = int (card (set t))"
  using wf_tile_key [of t] by (simp add: wf_key_def)

lemma size_tile_key_le: "is_tile t \<Longrightarrow> size_k (tile_key t) \<le> PixelPerTile"
  using card_length [of t] by (simp add: size_tile_key is_tile_def)

lemma keys_Add:
  "fst ` set (keyUses (Add gen t)) =
     (if 2 < size_k (tile_key t) then insert (tile_key t) (fst ` set (keyUses gen))
      else fst ` set (keyUses gen))"
proof (cases "map_of (keyUses gen) (tile_key t)")
  case None
  then show ?thesis by (simp add: Add_def Let_def)
next
  case (Some u)
  then have "tile_key t \<in> fst ` set (keyUses gen)" by (force dest: map_of_SomeD)
  moreover have "fst ` (\<lambda>(k, n). if k = tile_key t then (k, u + 1) else (k, n)) ` set (keyUses gen)
      = fst ` set (keyUses gen)"
    by (force simp: image_iff split: if_splits)
  ultimately show ?thesis using Some by (auto simp: Add_def Let_def)
qed

lemma keys_foldl_Add:
  "fst ` set (keyUses (foldl Add gen ts)) =
     fst ` set (keyUses gen) \<union> {tile_key t |t. t \<in> set ts \<and> 2 < size_k (tile_key t)}"
  by (induction ts arbitrary: gen) (auto simp: keys_Add split: if_splits)

lemma distinct_keys_Add:
  "distinct (map fst (keyUses gen)) \<Longrightarrow> distinct (map fst (keyUses (Add gen t)))"
proof (cases "map_of (keyUses gen) (tile_key t)")
  case None
  assume d: "distinct (map fst (keyUses gen))"
  from None have "tile_key t \<notin> fst ` set (keyUses gen)" by (simp add: map_of_eq_None_iff)
  with d None show ?thesis by (simp add: Add_def Let_def)
next
  case (Some u)
  assume d: "distinct (map fst (keyUses gen))"
  have "map fst (map (\<lambda>(k, n). if k = tile_key t then (k, u + 1) else (k, n)) xs) = map fst xs"
    for xs :: "(tilePaletteKey \<times> int) list"
    by (induction xs) (auto split: if_splits)
  with d Some show ?thesis by (simp add: Add_def Let_def del: map_map)
qed

lemma distinct_keys_foldl_Add:
  "distinct (map fst (keyUses gen)) \<Longrightarrow> distinct (map fst (keyUses (foldl Add gen ts)))"
  by (induction ts arbitrary: gen) (simp_all add: distinct_keys_Add)

lemma registered_keys:
  assumes "\<forall>t\<in>set tiles. is_tile t" and "k \<in> fst ` set (keyUses (foldl Add newGenerator tiles))"
  shows "wf_key k \<and> 2 < size_k k \<and> size_k k \<le> PixelPerTile"
  using assms by (auto simp: keys_foldl_Add newGenerator_def size_tile_key_le)

lemma Generate_tiles:
  assumes perm: "\<And>xs. mset (ord xs) = mset xs"
    and fuel: "2 * PixelPerTile + 2 \<le> int fuel"
    and tiles: "\<forall>t\<in>set tiles. is_tile t"
  shows "\<exists>lk. Generate fuel ord (foldl Add newGenerator tiles) = Some lk \<and>
           (\<forall>k p. starts lk k = Some p \<longrightarrow> placed (buffer lk) k p) \<and>
           (\<forall>k\<in>fst ` set (keyUses (foldl Add newGenerator tiles)). starts lk k \<noteq> None) \<and>
           int (length (buffer lk))
             \<le> (\<Sum>k\<in>fst ` set (keyUses (foldl Add newGenerator tiles)). size_k k)"
proof (rule Generate_ok [where ord = ord, OF perm])
  show "\<forall>k\<in>fst ` set (keyUses (foldl Add newGenerator tiles)). wf_key k"
    using registered_keys [OF tiles] by blast
  show "\<forall>k\<in>fst ` set (keyUses (foldl Add newGenerator tiles)). 2 * size_k k + 2 \<le> int fuel"
    using registered_keys [OF tiles] fuel by fastforce
qed

lemma placedD:
  assumes "placed buf k p"
  shows "\<exists>w. go_slice buf p (p + size_k k) = Some w \<and> distinct w \<and> set w = colors k \<and>
             0 \<le> p \<and> p + size_k k \<le> int (length buf) \<and> int (length w) = size_k k"
proof -
  from assms obtain w where w: "go_slice buf p (p + size_k k) = Some w" "distinct w" "set w = colors k"
    by (auto simp: placed_def split: option.splits)
  from w(1) have "0 \<le> p \<and> p + size_k k \<le> int (length buf) \<and> int (length w) = size_k k"
    by (auto simp: go_slice_def split: if_splits)
  with w show ?thesis by blast
qed

section \<open>Properties of the generated lookup\<close>

lemma tile_registered:
  assumes "T \<in> set tiles" "3 \<le> size_k (tile_key T)"
  shows "tile_key T \<in> fst ` set (keyUses (foldl Add newGenerator tiles))"
  using assms by (auto simp: keys_foldl_Add)

lemma is_tile_tK: "is_tile tK1" "is_tile tK2"
  by (simp_all add: is_tile_def tK1_def tK2_def PixelPerTile_def)

lemma size_tK: "size_k (tile_key tK1) = 5" "size_k (tile_key tK2) = 3"
  by (simp_all add: size_tile_key tK1_def tK2_def card_insert_if)

text \<open>
  Claim C2. After \<open>Generate\<close>, every registered key (the key of an added tile, of size at
  least 3) has an entry in \<open>starts\<close>, and the window of the key's size at that offset of the
  buffer holds every colour of the key; it holds exactly the colours of the key. This is so
  for every order in which the maps are ranged over, and \<open>Generate\<close> returns when its fuel
  is at least \<open>2 * PixelPerTile + 2\<close>.
\<close>

theorem dictionary_complete:
  assumes "\<And>xs. mset (ord xs) = mset xs"
    and "2 * PixelPerTile + 2 \<le> int fuel"
    and "\<forall>t\<in>set tiles. is_tile t"
    and "T \<in> set tiles" and "3 \<le> size_k (tile_key T)"
  shows "\<exists>lk s w. Generate fuel ord (foldl Add newGenerator tiles) = Some lk \<and>
           starts lk (tile_key T) = Some s \<and>
           go_slice (buffer lk) s (s + size_k (tile_key T)) = Some w \<and>
           colors (tile_key T) \<subseteq> set w \<and> set w = colors (tile_key T)"
proof -
  from Generate_tiles [where ord = ord, OF assms(1,2,3)] obtain lk where
    g: "Generate fuel ord (foldl Add newGenerator tiles) = Some lk"
    and pl: "\<forall>k p. starts lk k = Some p \<longrightarrow> placed (buffer lk) k p"
    and cov: "\<forall>k\<in>fst ` set (keyUses (foldl Add newGenerator tiles)). starts lk k \<noteq> None"
    by blast
  from cov tile_registered [OF assms(4,5)] obtain s where s: "starts lk (tile_key T) = Some s"
    by blast
  with pl have "placed (buffer lk) (tile_key T) s" by blast
  from placedD [OF this] g s show ?thesis by blast
qed

theorem dictionary_complete_witness:
  "is_tile tK1 \<and> is_tile tK2 \<and> 3 \<le> size_k (tile_key tK2) \<and>
   (\<exists>lk s w. Generate 34 (\<lambda>xs. xs) (foldl Add newGenerator [tK1, tK2]) = Some lk \<and>
      starts lk (tile_key tK2) = Some s \<and>
      go_slice (buffer lk) s (s + size_k (tile_key tK2)) = Some w \<and>
      colors (tile_key tK2) \<subseteq> set w \<and> set w = colors (tile_key tK2))"
  using dictionary_complete [of "\<lambda>xs. xs" 34 "[tK1, tK2]" tK2]
  by (simp add: is_tile_tK size_tK PixelPerTile_def)

text \<open>
  Claim C3. After \<open>Generate\<close>, the window of a registered key at its offset in \<open>starts\<close> has
  no byte twice: as a multiset it is the set of the key's colours, and the number of its
  bytes is the size of the key.
\<close>

theorem window_reconstructs_key:
  assumes "\<And>xs. mset (ord xs) = mset xs"
    and "2 * PixelPerTile + 2 \<le> int fuel"
    and "\<forall>t\<in>set tiles. is_tile t"
    and "T \<in> set tiles" and "3 \<le> size_k (tile_key T)"
  shows "\<exists>lk s w. Generate fuel ord (foldl Add newGenerator tiles) = Some lk \<and>
           starts lk (tile_key T) = Some s \<and>
           go_slice (buffer lk) s (s + size_k (tile_key T)) = Some w \<and>
           distinct w \<and> mset w = mset_set (colors (tile_key T)) \<and>
           int (card (set w)) = size_k (tile_key T) \<and> int (length w) = size_k (tile_key T)"
proof -
  from Generate_tiles [where ord = ord, OF assms(1,2,3)] obtain lk where
    g: "Generate fuel ord (foldl Add newGenerator tiles) = Some lk"
    and pl: "\<forall>k p. starts lk k = Some p \<longrightarrow> placed (buffer lk) k p"
    and cov: "\<forall>k\<in>fst ` set (keyUses (foldl Add newGenerator tiles)). starts lk k \<noteq> None"
    by blast
  from cov tile_registered [OF assms(4,5)] obtain s where s: "starts lk (tile_key T) = Some s"
    by blast
  with pl have "placed (buffer lk) (tile_key T) s" by blast
  from placedD [OF this] obtain w where
    w: "go_slice (buffer lk) s (s + size_k (tile_key T)) = Some w" "distinct w"
    "set w = colors (tile_key T)" "int (length w) = size_k (tile_key T)" by blast
  from w(2,3) have "mset w = mset_set (colors (tile_key T))"
    using mset_set_set [of w] by simp
  moreover from w(2,4) have "int (card (set w)) = size_k (tile_key T)"
    by (simp add: distinct_card)
  ultimately show ?thesis using g s w by blast
qed

theorem window_reconstructs_key_witness:
  "is_tile tK1 \<and> is_tile tK2 \<and> 3 \<le> size_k (tile_key tK1) \<and>
   (\<exists>lk s w. Generate 34 (\<lambda>xs. xs) (foldl Add newGenerator [tK1, tK2]) = Some lk \<and>
      starts lk (tile_key tK1) = Some s \<and>
      go_slice (buffer lk) s (s + size_k (tile_key tK1)) = Some w \<and>
      distinct w \<and> mset w = mset_set (colors (tile_key tK1)) \<and>
      int (card (set w)) = size_k (tile_key tK1) \<and> int (length w) = size_k (tile_key tK1))"
  using window_reconstructs_key [of "\<lambda>xs. xs" 34 "[tK1, tK2]" tK1]
  by (simp add: is_tile_tK size_tK PixelPerTile_def)

text \<open>
  Claim C9. After \<open>Generate\<close>, every entry of \<open>starts\<close> lies inside the buffer: its offset is
  not negative and offset plus key size is at most the length of the buffer. The slice that
  \<open>Lookup\<close> takes is therefore in range, for every tile.
\<close>

theorem starts_in_bounds:
  assumes "\<And>xs. mset (ord xs) = mset xs"
    and "2 * PixelPerTile + 2 \<le> int fuel"
    and "\<forall>t\<in>set tiles. is_tile t"
  shows "\<exists>lk. Generate fuel ord (foldl Add newGenerator tiles) = Some lk \<and>
           (\<forall>K s. starts lk K = Some s \<longrightarrow>
              0 \<le> s \<and> s + size_k K \<le> int (length (buffer lk)) \<and>
              go_slice (buffer lk) s (s + size_k K) \<noteq> None) \<and>
           (\<forall>tile. Lookup lk tile \<noteq> None)"
proof -
  from Generate_tiles [where ord = ord, OF assms(1,2,3)] obtain lk where
    g: "Generate fuel ord (foldl Add newGenerator tiles) = Some lk"
    and pl: "\<forall>k p. starts lk k = Some p \<longrightarrow> placed (buffer lk) k p"
    by blast
  have b: "0 \<le> s \<and> s + size_k K \<le> int (length (buffer lk)) \<and>
           go_slice (buffer lk) s (s + size_k K) \<noteq> None" if "starts lk K = Some s" for K s
    using placedD [of "buffer lk" K s] pl that by force
  have "Lookup lk tile \<noteq> None" for tile
  proof (cases "starts lk (tile_key tile)")
    case None
    then show ?thesis by (simp add: Lookup_def Let_def)
  next
    case (Some s)
    with b [OF Some] show ?thesis by (auto simp: Lookup_def Let_def)
  qed
  with g b show ?thesis by blast
qed

theorem starts_in_bounds_witness:
  "is_tile tK1 \<and> is_tile tK2 \<and>
   (\<exists>lk s. Generate 34 (\<lambda>xs. xs) (foldl Add newGenerator [tK1, tK2]) = Some lk \<and>
      starts lk (tile_key tK1) = Some s \<and>
      0 \<le> s \<and> s + size_k (tile_key tK1) \<le> int (length (buffer lk)) \<and>
      Lookup lk tK1 \<noteq> None)"
proof -
  from starts_in_bounds [of "\<lambda>xs. xs" 34 "[tK1, tK2]"] obtain lk where
    g: "Generate 34 (\<lambda>xs. xs) (foldl Add newGenerator [tK1, tK2]) = Some lk"
    and b: "\<forall>K s. starts lk K = Some s \<longrightarrow>
              0 \<le> s \<and> s + size_k K \<le> int (length (buffer lk)) \<and>
              go_slice (buffer lk) s (s + size_k K) \<noteq> None"
    and l: "\<forall>tile. Lookup lk tile \<noteq> None"
    by (auto simp: is_tile_tK PixelPerTile_def)
  from Generate_tiles [of "\<lambda>xs. xs" 34 "[tK1, tK2]"] g
  have "\<forall>k\<in>fst ` set (keyUses (foldl Add newGenerator [tK1, tK2])). starts lk k \<noteq> None"
    by (auto simp: is_tile_tK PixelPerTile_def)
  with tile_registered [of tK1 "[tK1, tK2]"] obtain s where "starts lk (tile_key tK1) = Some s"
    by (auto simp: size_tK)
  with g b l show ?thesis by (auto simp: is_tile_tK)
qed

text \<open>
  Claim C6. The buffer \<open>Generate\<close> produces is no longer than the sum of the sizes of the
  distinct registered keys, which is the length of the concatenation of \<open>K.buffer()\<close> over
  the keys of \<open>keyUses\<close>.
\<close>

theorem monotone_compression:
  assumes "\<And>xs. mset (ord xs) = mset xs"
    and "2 * PixelPerTile + 2 \<le> int fuel"
    and "\<forall>t\<in>set tiles. is_tile t"
    and "gen = foldl Add newGenerator tiles"
  shows "\<exists>lk. Generate fuel ord gen = Some lk \<and>
           int (length (buffer lk)) \<le> (\<Sum>K\<in>fst ` set (keyUses gen). size_k K) \<and>
           (\<Sum>K\<in>fst ` set (keyUses gen). size_k K)
             = int (length (concat (map (\<lambda>(K, uses). key_buffer K) (keyUses gen))))"
proof -
  from Generate_tiles [where ord = ord, OF assms(1,2,3)] assms(4) obtain lk where
    g: "Generate fuel ord gen = Some lk"
    and len: "int (length (buffer lk)) \<le> (\<Sum>k\<in>fst ` set (keyUses gen). size_k k)"
    by blast
  have d: "distinct (map fst (keyUses gen))"
    unfolding assms(4) by (rule distinct_keys_foldl_Add) (simp add: newGenerator_def)
  have wf: "\<forall>k\<in>fst ` set (keyUses gen). wf_key k"
    using registered_keys [OF assms(3)] assms(4) by blast
  have "int (length (concat (map (\<lambda>(K, uses). key_buffer K) (keyUses gen))))
      = (\<Sum>x\<leftarrow>keyUses gen. int (length (key_buffer (fst x))))"
    by (simp add: length_concat comp_def case_prod_beta sum_list_of_nat [symmetric])
  also have "\<dots> = (\<Sum>K\<leftarrow>map fst (keyUses gen). size_k K)"
    unfolding map_map comp_def using wf
    by (intro arg_cong [where f = sum_list] map_cong) (simp_all add: length_key_buffer)
  also have "\<dots> = (\<Sum>K\<in>set (map fst (keyUses gen)). size_k K)"
    using d by (rule sum_list_distinct_conv_sum_set)
  finally show ?thesis using g len by simp
qed

theorem monotone_compression_witness:
  "is_tile tK1 \<and> is_tile tK2 \<and>
   (\<exists>lk. Generate 34 (\<lambda>xs. xs) (foldl Add newGenerator [tK1, tK2]) = Some lk \<and>
      int (length (buffer lk))
        \<le> (\<Sum>K\<in>fst ` set (keyUses (foldl Add newGenerator [tK1, tK2])). size_k K))"
  using monotone_compression [of "\<lambda>xs. xs" 34 "[tK1, tK2]" "foldl Add newGenerator [tK1, tK2]"]
  by (auto simp: is_tile_tK PixelPerTile_def)

end
